theory Spec2Isabelle
  imports Main "HOL-Library.Sublist"
begin

section \<open>The signaling server of vacon: data model\<close>

text \<open>
  The development embeds \<^verbatim>\<open>src/signaling-server.py\<close>. The server keeps one
  process-wide dictionary \<^verbatim>\<open>sessions\<close> from session identifiers to session
  dictionaries \<^verbatim>\<open>{"peers": [...], "started": bool}\<close>, and runs one coroutine
  \<^verbatim>\<open>handle_websocket(websocket, path)\<close> per connection. The coroutines are
  scheduled cooperatively: a coroutine runs without interruption from one \<^verbatim>\<open>await\<close>
  to the next. The model is therefore a transition system whose steps are the blocks of
  code between two \<^verbatim>\<open>await\<close>s, each resumed by what the awaited call does
  (a message arrives, a send completes, or the call raises).

  A websocket object is identified by a number (Python compares the objects by identity).
  A session dictionary is a mutable object that the local variable \<^verbatim>\<open>session\<close>
  of a suspended coroutine keeps referring to, so session dictionaries live in a heap and
  the registry maps a session identifier to an address.
\<close>

type_synonym conn = nat

type_synonym addr = nat

record session =
  peers :: "conn list"
  started :: bool

text \<open>
  Exceptions. \<^verbatim>\<open>recv\<close> and \<^verbatim>\<open>send\<close> raise
  \<^verbatim>\<open>ConnectionClosedError\<close> on an abrupt close, \<^verbatim>\<open>ConnectionClosedOK\<close>
  on a normal close; both are subclasses of \<^verbatim>\<open>Exception\<close>. Any other subclass of
  \<^verbatim>\<open>Exception\<close> is \<open>Exception_other\<close>, and an exception that is only a
  \<^verbatim>\<open>BaseException\<close> (the cancellation of the task) is \<open>BaseException_other\<close>.
  \<open>Session_is_None\<close> is the \<^verbatim>\<open>TypeError\<close> of line 42 when
  \<^verbatim>\<open>sessions.get(session_id)\<close> returned \<^verbatim>\<open>None\<close>.
\<close>

datatype io_exn = ConnectionClosedError | ConnectionClosedOK | Exception_other | BaseException_other

datatype exn = Io io_exn | Session_is_None

text \<open>
  How a handler ended: by the \<^verbatim>\<open>return\<close> of line 30, in the
  \<^verbatim>\<open>except ConnectionClosedError\<close> clause (line 56), in the
  \<^verbatim>\<open>except Exception\<close> clause (line 58), or with an exception that no clause
  catches. The \<^verbatim>\<open>finally\<close> block runs in all four cases.
\<close>

datatype ending = Returned | Peer_closed | Traceback exn | Uncaught exn

text \<open>
  A handler is suspended at one of the three \<^verbatim>\<open>await\<close>s of the source, with
  the local variables that are live there: \<^verbatim>\<open>session_id\<close>, the address held by
  \<^verbatim>\<open>session\<close>, and inside the \<^verbatim>\<open>for\<close> loop also
  \<^verbatim>\<open>data\<close> and the position of the list iterator.
\<close>

datatype task =
    Await_start_send string addr
  | Await_recv string addr
  | Await_relay_send string addr string nat
  | Finished ending

text \<open>
  What the server does on the outside: \<open>Start_send c p text\<close> is the call
  \<^verbatim>\<open>first_peer.send(data)\<close> of line 47 made by the handler of connection \<open>c\<close>
  on the websocket \<open>p\<close>, and \<open>Relay_send c p text\<close> is the call
  \<^verbatim>\<open>peer.send(data)\<close> of line 54. \<open>Join c sid a\<close> records that lines 35 to 38
  put \<open>c\<close> into the session object \<open>a\<close> registered under \<open>sid\<close>; it is a
  log entry only and no code reads it. Console output is not modelled.
\<close>

datatype event =
    Join conn string addr
  | Start_send conn conn string
  | Relay_send conn conn string

record state =
  sessions :: "string \<rightharpoonup> addr"
  heap :: "addr \<Rightarrow> session"
  next_addr :: addr
  tasks :: "conn \<rightharpoonup> task"
  trace :: "event list"

definition init_state :: state where
  "init_state = \<lparr>sessions = Map.empty, heap = (\<lambda>_. \<lparr>peers = [], started = False\<rparr>),
     next_addr = 0, tasks = Map.empty, trace = []\<rparr>"

section \<open>Library functions of Python used by the handler\<close>

text \<open>
  \<^verbatim>\<open>str.find\<close>: the lowest index at which the separator occurs.
\<close>

fun str_find :: "string \<Rightarrow> string \<Rightarrow> nat option" where
  "str_find sep [] = (if sep = [] then Some 0 else None)"
| "str_find sep (x # xs) =
     (if prefix sep (x # xs) then Some 0 else map_option Suc (str_find sep xs))"

text \<open>
  \<^verbatim>\<open>str.partition(sep)\<close> for a separator that is not empty: the string is split at
  the first occurrence of the separator into the part before it, the separator and the part
  after it; without an occurrence the result is the string and two empty strings.
\<close>

definition partition_py :: "string \<Rightarrow> string \<Rightarrow> string \<times> string \<times> string" where
  "partition_py s sep =
     (case str_find sep s of
        None \<Rightarrow> (s, [], [])
      | Some i \<Rightarrow> (take i s, sep, drop (i + length sep) s))"

text \<open>
  \<^verbatim>\<open>json.dumps\<close> on a dictionary from strings to strings none of whose
  characters needs an escape, with the default separators.
\<close>

definition json_str :: "string \<Rightarrow> string" where
  "json_str t = [CHR 0x22] @ t @ [CHR 0x22]"

fun json_items :: "(string \<times> string) list \<Rightarrow> string" where
  "json_items [] = []"
| "json_items [(k, v)] = json_str k @ '': '' @ json_str v"
| "json_items ((k, v) # kvs) = json_str k @ '': '' @ json_str v @ '', '' @ json_items kvs"

definition json_dumps :: "(string \<times> string) list \<Rightarrow> string" where
  "json_dumps kvs = ''{'' @ json_items kvs @ ''}''"

section \<open>The handler\<close>

definition path_prefix :: string where
  "path_prefix = ''/v1/ooo/''"

text \<open>Line 31: \<^verbatim>\<open>path.partition('/v1/ooo/')[-1]\<close>.\<close>

definition session_id_of :: "string \<Rightarrow> string" where
  "session_id_of path = snd (snd (partition_py path path_prefix))"

text \<open>
  Lines 35 to 38: a new session dictionary is allocated for an identifier that is not in
  the registry, otherwise the websocket is appended to the peer list of the registered one.
\<close>

definition join :: "conn \<Rightarrow> string \<Rightarrow> state \<Rightarrow> state" where
  "join websocket session_id s =
     (case sessions s session_id of
        None \<Rightarrow>
          s\<lparr>sessions := (sessions s)(session_id \<mapsto> next_addr s),
            heap := (heap s)(next_addr s := \<lparr>peers = [websocket], started = False\<rparr>),
            next_addr := Suc (next_addr s),
            trace := trace s @ [Join websocket session_id (next_addr s)]\<rparr>
      | Some a \<Rightarrow>
          s\<lparr>heap := (heap s)(a := (heap s a)\<lparr>peers := peers (heap s a) @ [websocket]\<rparr>),
            trace := trace s @ [Join websocket session_id a]\<rparr>)"

text \<open>
  Lines 62 to 69, the \<^verbatim>\<open>finally\<close> block. \<^verbatim>\<open>if session_id:\<close> tests the
  truth value of the variable: \<^verbatim>\<open>None\<close> and the empty string are both false.
  Every subscript \<^verbatim>\<open>sessions[session_id]\<close> comes after the test
  \<^verbatim>\<open>session_id in sessions\<close> and \<^verbatim>\<open>remove\<close> after the test
  \<^verbatim>\<open>websocket in ...\<close>, so the block has no raising branch;
  \<^verbatim>\<open>list.remove\<close> deletes the first occurrence.
\<close>

definition truthy :: "string option \<Rightarrow> bool" where
  "truthy v = (case v of None \<Rightarrow> False | Some t \<Rightarrow> t \<noteq> [])"

definition leave :: "conn \<Rightarrow> string option \<Rightarrow> state \<Rightarrow> state" where
  "leave websocket session_id s =
     (if truthy session_id then
        (case sessions s (the session_id) of
           None \<Rightarrow> s
         | Some a \<Rightarrow>
             let s1 = (if websocket \<in> set (peers (heap s a))
                       then s\<lparr>heap := (heap s)(a := (heap s a)\<lparr>peers := remove1 websocket (peers (heap s a))\<rparr>)\<rparr>
                       else s)
             in if length (peers (heap s1 a)) = 0
                then s1\<lparr>sessions := (sessions s1)((the session_id) := None)\<rparr>
                else s1)
      else s)"

text \<open>
  Lines 56 to 59: which clause handles an exception.
\<close>

fun ending_of :: "exn \<Rightarrow> ending" where
  "ending_of (Io ConnectionClosedError) = Peer_closed"
| "ending_of (Io BaseException_other) = Uncaught (Io BaseException_other)"
| "ending_of e = Traceback e"

text \<open>
  The end of a handler: the \<^verbatim>\<open>finally\<close> block, then the coroutine is over.
\<close>

definition finish :: "conn \<Rightarrow> string option \<Rightarrow> ending \<Rightarrow> state \<Rightarrow> state" where
  "finish websocket session_id e s =
     (leave websocket session_id s)\<lparr>tasks := (tasks (leave websocket session_id s))(websocket \<mapsto> Finished e)\<rparr>"

text \<open>
  Lines 41 to 47, from the top of the \<^verbatim>\<open>while\<close> loop to the next
  \<^verbatim>\<open>await\<close>: the \<^verbatim>\<open>send\<close> of line 47 when the start condition holds,
  the \<^verbatim>\<open>recv\<close> of line 48 otherwise. When \<^verbatim>\<open>sessions.get\<close> returns
  \<^verbatim>\<open>None\<close> the subscript of line 42 raises.
\<close>

definition loop_top :: "conn \<Rightarrow> string \<Rightarrow> state \<Rightarrow> state" where
  "loop_top websocket session_id s =
     (case sessions s session_id of
        None \<Rightarrow> finish websocket (Some session_id) (ending_of Session_is_None) s
      | Some a \<Rightarrow>
          if length (peers (heap s a)) \<ge> 2 \<and> started (heap s a) = False
          then s\<lparr>heap := (heap s)(a := (heap s a)\<lparr>started := True\<rparr>),
                 trace := trace s @ [Start_send websocket (peers (heap s a) ! 0)
                                       (json_dumps [(''type'', ''start_session'')])],
                 tasks := (tasks s)(websocket \<mapsto> Await_start_send session_id a)\<rparr>
          else s\<lparr>tasks := (tasks s)(websocket \<mapsto> Await_recv session_id a)\<rparr>)"

text \<open>
  Lines 51 to 54, the \<^verbatim>\<open>for\<close> loop from position \<open>i\<close> of the list iterator
  to the next \<^verbatim>\<open>await\<close>. The iterator reads the list of the object that
  \<^verbatim>\<open>session\<close> refers to, at its current length. When the iterator is exhausted
  the \<^verbatim>\<open>while\<close> loop starts over.
\<close>

function for_peers :: "conn \<Rightarrow> string \<Rightarrow> addr \<Rightarrow> string \<Rightarrow> nat \<Rightarrow> state \<Rightarrow> state" where
  "for_peers websocket session_id a data i s =
     (if i < length (peers (heap s a)) then
        (if peers (heap s a) ! i \<noteq> websocket
         then s\<lparr>trace := trace s @ [Relay_send websocket (peers (heap s a) ! i) data],
                tasks := (tasks s)(websocket \<mapsto> Await_relay_send session_id a data (Suc i))\<rparr>
         else for_peers websocket session_id a data (Suc i) s)
      else loop_top websocket session_id s)"
  by pat_completeness auto

termination
  by (relation "measure (\<lambda>(w, sid, a, d, i, s). length (peers (heap s a)) - i)") auto

declare for_peers.simps [simp del]

text \<open>
  Lines 27 to 39: the handler from its call to its first \<^verbatim>\<open>await\<close>.
\<close>

definition handle_websocket :: "conn \<Rightarrow> string \<Rightarrow> state \<Rightarrow> state" where
  "handle_websocket websocket path s =
     (if \<not> prefix path_prefix path then finish websocket None Returned s
      else loop_top websocket (session_id_of path) (join websocket (session_id_of path) s))"

section \<open>The server as a transition system\<close>

text \<open>
  The environment of the handlers: the listener calls the handler for a new websocket,
  a pending \<^verbatim>\<open>recv\<close> returns a message or raises, a pending \<^verbatim>\<open>send\<close>
  returns or raises. A step is not enabled (\<open>None\<close>) when the connection is not
  suspended at the matching \<^verbatim>\<open>await\<close>; the listener hands every websocket object
  to one handler only.
\<close>

datatype input =
    Connect conn string
  | Recv_msg conn string
  | Recv_raise conn io_exn
  | Send_ok conn
  | Send_raise conn io_exn

fun step :: "input \<Rightarrow> state \<Rightarrow> state option" where
  "step (Connect c path) s =
     (if tasks s c = None then Some (handle_websocket c path s) else None)"
| "step (Recv_msg c d) s =
     (case tasks s c of
        Some (Await_recv sid a) \<Rightarrow> Some (for_peers c sid a d 0 s)
      | _ \<Rightarrow> None)"
| "step (Recv_raise c e) s =
     (case tasks s c of
        Some (Await_recv sid a) \<Rightarrow> Some (finish c (Some sid) (ending_of (Io e)) s)
      | _ \<Rightarrow> None)"
| "step (Send_ok c) s =
     (case tasks s c of
        Some (Await_start_send sid a) \<Rightarrow> Some (s\<lparr>tasks := (tasks s)(c \<mapsto> Await_recv sid a)\<rparr>)
      | Some (Await_relay_send sid a d i) \<Rightarrow> Some (for_peers c sid a d i s)
      | _ \<Rightarrow> None)"
| "step (Send_raise c e) s =
     (case tasks s c of
        Some (Await_start_send sid a) \<Rightarrow> Some (finish c (Some sid) (ending_of (Io e)) s)
      | Some (Await_relay_send sid a d i) \<Rightarrow> Some (finish c (Some sid) (ending_of (Io e)) s)
      | _ \<Rightarrow> None)"

fun run :: "input list \<Rightarrow> state \<Rightarrow> state option" where
  "run [] s = Some s"
| "run (i # is) s = (case step i s of None \<Rightarrow> None | Some s' \<Rightarrow> run is s')"

inductive reachable :: "state \<Rightarrow> bool" where
  reachable_init: "reachable init_state"
| reachable_step: "reachable s \<Longrightarrow> step i s = Some s' \<Longrightarrow> reachable s'"

section \<open>Invariants of the reachable states\<close>

text \<open>
  The session of a handler that is suspended inside the \<^verbatim>\<open>while\<close> loop:
  its \<^verbatim>\<open>session_id\<close> and the object its variable \<^verbatim>\<open>session\<close>
  refers to.
\<close>

fun in_session :: "task \<Rightarrow> (string \<times> addr) option" where
  "in_session (Await_start_send sid a) = Some (sid, a)"
| "in_session (Await_recv sid a) = Some (sid, a)"
| "in_session (Await_relay_send sid a d i) = Some (sid, a)"
| "in_session (Finished e) = None"

text \<open>
  The registry points to allocated objects and no object is registered twice; every
  registered peer list is non-empty and duplicate-free, and has one element as long as
  the session is not started; a handler inside the loop is registered in the object it
  refers to, and every registered websocket has a handler.
\<close>

definition reg_ok :: "state \<Rightarrow> bool" where
  "reg_ok s \<longleftrightarrow>
     (\<forall>sid a. sessions s sid = Some a \<longrightarrow> a < next_addr s) \<and>
     (\<forall>sid sid' a. sessions s sid = Some a \<longrightarrow> sessions s sid' = Some a \<longrightarrow> sid = sid')"

definition peers_ok :: "state \<Rightarrow> bool" where
  "peers_ok s \<longleftrightarrow>
     (\<forall>sid a. sessions s sid = Some a \<longrightarrow>
        peers (heap s a) \<noteq> [] \<and> distinct (peers (heap s a)) \<and>
        (\<not> started (heap s a) \<longrightarrow> length (peers (heap s a)) = 1))"

definition tasks_ok :: "state \<Rightarrow> bool" where
  "tasks_ok s \<longleftrightarrow>
     (\<forall>c t sid a. tasks s c = Some t \<longrightarrow> in_session t = Some (sid, a) \<longrightarrow>
         sessions s sid = Some a \<and> c \<in> set (peers (heap s a))) \<and>
     (\<forall>sid a c. sessions s sid = Some a \<longrightarrow> c \<in> set (peers (heap s a)) \<longrightarrow> tasks s c \<noteq> None)"

definition inv :: "state \<Rightarrow> bool" where
  "inv s \<longleftrightarrow> reg_ok s \<and> peers_ok s \<and> tasks_ok s"

text \<open>
  The state of the server after a sequence of inputs from the initial state, and the
  property that no handler has ended with the \<^verbatim>\<open>TypeError\<close> of line 42.
\<close>

definition after :: "input list \<Rightarrow> state" where
  "after inputs = (case run inputs init_state of Some s \<Rightarrow> s | None \<Rightarrow> init_state)"

definition no_fault :: "state \<Rightarrow> bool" where
  "no_fault s \<longleftrightarrow> (\<forall>c. tasks s c \<noteq> Some (Finished (Traceback Session_is_None)))"

text \<open>
  The websockets that joined the session object \<open>a\<close>, in the order of their joins, as
  the log records them; and the events that a step appends to the log.
\<close>

fun joiners :: "addr \<Rightarrow> event list \<Rightarrow> conn list" where
  "joiners a [] = []"
| "joiners a (Join c sid b # es) = (if b = a then c # joiners a es else joiners a es)"
| "joiners a (Start_send c p m # es) = joiners a es"
| "joiners a (Relay_send c p m # es) = joiners a es"

definition new_events :: "state \<Rightarrow> state \<Rightarrow> event list" where
  "new_events s s' = drop (length (trace s)) (trace s')"

definition joins_ok :: "state \<Rightarrow> bool" where
  "joins_ok s \<longleftrightarrow>
     (\<forall>a. next_addr s \<le> a \<longrightarrow> joiners a (trace s) = []) \<and>
     (\<forall>sid a. sessions s sid = Some a \<longrightarrow> \<not> started (heap s a) \<longrightarrow>
        joiners a (trace s) = peers (heap s a))"

text \<open>
  A registered session that is started has seen at least two joins.
\<close>

definition started_joined :: "state \<Rightarrow> bool" where
  "started_joined s \<longleftrightarrow>
     (\<forall>sid a. sessions s sid = Some a \<longrightarrow> started (heap s a) \<longrightarrow>
        2 \<le> length (joiners a (trace s)))"

section \<open>Basic facts about the handler\<close>

lemma session_id_of_prefix:
  assumes "prefix path_prefix path"
  shows "session_id_of path = drop (length path_prefix) path"
proof -
  from assms obtain x xs where p: "path = x # xs" by (cases path) (auto simp: path_prefix_def)
  with assms have "str_find path_prefix path = Some 0" by simp
  then show ?thesis by (simp add: session_id_of_def partition_py_def)
qed

lemma start_session_text:
  \<open>json_dumps [(''type'', ''start_session'')] = ''{"type": "start_session"}''\<close>
  by (simp add: json_dumps_def json_str_def)

lemma tasks_leave: "tasks (leave c sid s) = tasks s"
  by (simp add: leave_def Let_def split: option.splits)

lemma tasks_finish: "tasks (finish c sid e s) = (tasks s)(c \<mapsto> Finished e)"
  by (simp add: finish_def tasks_leave)

lemma trace_finish: "trace (finish c sid e s) = trace s"
  by (simp add: finish_def leave_def Let_def split: option.splits)

lemma next_addr_finish: "next_addr (finish c sid e s) = next_addr s"
  by (simp add: finish_def leave_def Let_def split: option.splits)

lemma started_finish: "started (heap (finish c sid e s) b) = started (heap s b)"
  by (simp add: finish_def leave_def Let_def split: option.splits)

lemma sessions_finish_sub: "sessions (finish c sid e s) x = Some b \<Longrightarrow> sessions s x = Some b"
  by (simp add: finish_def leave_def Let_def split: option.splits if_splits)

lemma ending_of_io: "ending_of (Io e) \<noteq> Traceback Session_is_None"
  by (cases e) simp_all

lemma joiners_append: "joiners a (xs @ ys) = joiners a xs @ joiners a ys"
  by (induction a xs rule: joiners.induct) auto

lemma new_events_append [simp]: "trace s' = trace s @ evs \<Longrightarrow> new_events s s' = evs"
  by (simp add: new_events_def)

lemma new_events_same [simp]: "trace s' = trace s \<Longrightarrow> new_events s s' = []"
  by (simp add: new_events_def)

lemma run_reachable: "reachable s \<Longrightarrow> run inputs s = Some s' \<Longrightarrow> reachable s'"
proof (induction inputs arbitrary: s)
  case Nil
  then show ?case by simp
next
  case (Cons i inputs)
  then show ?case by (auto split: option.splits intro: reachable_step)
qed

lemma reachable_after: "reachable (after inputs)"
  unfolding after_def
  by (cases "run inputs init_state") (auto intro: reachable_init run_reachable[OF reachable_init])

lemmas eval_defs = after_def handle_websocket_def loop_top_def join_def finish_def leave_def
  truthy_def session_id_of_def partition_py_def path_prefix_def init_state_def
  for_peers.simps Let_def json_dumps_def json_str_def

lemma for_peers_cases:
  "for_peers c sid a d i s = loop_top c sid s \<or>
   (\<exists>j. i \<le> j \<and> j < length (peers (heap s a)) \<and> peers (heap s a) ! j \<noteq> c \<and>
        for_peers c sid a d i s =
          s\<lparr>trace := trace s @ [Relay_send c (peers (heap s a) ! j) d],
            tasks := (tasks s)(c \<mapsto> Await_relay_send sid a d (Suc j))\<rparr>)"
proof (induction c sid a d i s rule: for_peers.induct)
  case (1 c sid a d i s)
  show ?case
  proof (cases "i < length (peers (heap s a))")
    case False
    then show ?thesis by (simp add: for_peers.simps)
  next
    case True
    show ?thesis
    proof (cases "peers (heap s a) ! i = c")
      case False
      with True show ?thesis by (subst (1 2) for_peers.simps) auto
    next
      case same: True
      from 1[OF True] same have
        "for_peers c sid a d (Suc i) s = loop_top c sid s \<or>
         (\<exists>j. Suc i \<le> j \<and> j < length (peers (heap s a)) \<and> peers (heap s a) ! j \<noteq> c \<and>
          for_peers c sid a d (Suc i) s =
          s\<lparr>trace := trace s @ [Relay_send c (peers (heap s a) ! j) d],
            tasks := (tasks s)(c \<mapsto> Await_relay_send sid a d (Suc j))\<rparr>)" by blast
      moreover have "for_peers c sid a d i s = for_peers c sid a d (Suc i) s"
        using True same by (subst for_peers.simps) simp
      ultimately show ?thesis by (metis Suc_leD)
    qed
  qed
qed

lemma accept_new:
  assumes "prefix path_prefix path" and "sessions s (session_id_of path) = None"
  shows "handle_websocket c path s =
     s\<lparr>sessions := (sessions s)(session_id_of path \<mapsto> next_addr s),
       heap := (heap s)(next_addr s := \<lparr>peers = [c], started = False\<rparr>),
       next_addr := Suc (next_addr s),
       trace := trace s @ [Join c (session_id_of path) (next_addr s)],
       tasks := (tasks s)(c \<mapsto> Await_recv (session_id_of path) (next_addr s))\<rparr>"
  using assms by (simp add: handle_websocket_def join_def loop_top_def)

lemma accept_later:
  assumes "prefix path_prefix path" and "sessions s (session_id_of path) = Some a"
    and "started (heap s a)"
  shows "handle_websocket c path s =
     s\<lparr>heap := (heap s)(a := (heap s a)\<lparr>peers := peers (heap s a) @ [c]\<rparr>),
       trace := trace s @ [Join c (session_id_of path) a],
       tasks := (tasks s)(c \<mapsto> Await_recv (session_id_of path) a)\<rparr>"
  using assms by (simp add: handle_websocket_def join_def loop_top_def)

lemma accept_second:
  assumes "prefix path_prefix path" and "sessions s (session_id_of path) = Some a"
    and "\<not> started (heap s a)" and "peers (heap s a) \<noteq> []"
  shows "handle_websocket c path s =
     s\<lparr>heap := (heap s)(a := (heap s a)\<lparr>peers := peers (heap s a) @ [c], started := True\<rparr>),
       trace := trace s @ [Join c (session_id_of path) a,
                  Start_send c (peers (heap s a) ! 0) (json_dumps [(''type'', ''start_session'')])],
       tasks := (tasks s)(c \<mapsto> Await_start_send (session_id_of path) a)\<rparr>"
proof -
  from assms(4) have "2 \<le> length (peers (heap s a) @ [c])"
    by (cases "peers (heap s a)") auto
  moreover from assms(4) have "(peers (heap s a) @ [c]) ! 0 = peers (heap s a) ! 0"
    by (cases "peers (heap s a)") auto
  ultimately show ?thesis
    using assms(1-3) by (simp add: handle_websocket_def join_def loop_top_def)
qed

section \<open>Preservation of the invariants\<close>

lemma inv_init: "inv init_state"
  by (simp add: inv_def reg_ok_def peers_ok_def tasks_ok_def init_state_def)

lemma inv_task_upd:
  assumes "inv s" and "tasks s c = Some t" and "in_session t = Some (sid, a)"
    and "in_session t' = Some (sid, a)"
    and "sessions s' = sessions s" and "heap s' = heap s" and "next_addr s' = next_addr s"
    and "tasks s' = (tasks s)(c \<mapsto> t')"
  shows "inv s'"
proof -
  have r: "reg_ok s'" using assms by (simp add: inv_def reg_ok_def)
  have p: "peers_ok s'" using assms by (simp add: inv_def peers_ok_def)
  have t1: "sessions s' sid' = Some a' \<and> c' \<in> set (peers (heap s' a'))"
    if "tasks s' c' = Some u" "in_session u = Some (sid', a')" for c' u sid' a'
  proof (cases "c' = c")
    case True
    with that assms have "sid' = sid" "a' = a" by auto
    moreover from assms have "sessions s sid = Some a \<and> c \<in> set (peers (heap s a))"
      unfolding inv_def tasks_ok_def by blast
    ultimately show ?thesis using True assms by simp
  next
    case False
    with that assms have "tasks s c' = Some u" by simp
    with that assms have "sessions s sid' = Some a' \<and> c' \<in> set (peers (heap s a'))"
      unfolding inv_def tasks_ok_def by blast
    then show ?thesis using assms by simp
  qed
  have t2: "tasks s' c' \<noteq> None" if "sessions s' sid' = Some a'" "c' \<in> set (peers (heap s' a'))" for sid' a' c'
  proof -
    from that assms have "tasks s c' \<noteq> None" unfolding inv_def tasks_ok_def by metis
    then show ?thesis using assms by simp
  qed
  from t1 t2 have "tasks_ok s'" unfolding tasks_ok_def by blast
  with r p show ?thesis by (simp add: inv_def)
qed

lemma loop_top_in_loop:
  assumes "inv s" and "tasks s c = Some t" and "in_session t = Some (sid, a)"
  shows "loop_top c sid s = s\<lparr>tasks := (tasks s)(c \<mapsto> Await_recv sid a)\<rparr>"
proof -
  from assms have reg: "sessions s sid = Some a" unfolding inv_def tasks_ok_def by blast
  with assms(1) have "\<not> started (heap s a) \<longrightarrow> length (peers (heap s a)) = 1"
    unfolding inv_def peers_ok_def by blast
  with reg show ?thesis by (auto simp: loop_top_def)
qed

lemma inv_task_finished:
  assumes "inv s"
    and "sessions s' = sessions s" and "heap s' = heap s" and "next_addr s' = next_addr s"
    and "tasks s' = (tasks s)(c \<mapsto> Finished e)"
  shows "inv s'"
proof -
  have r: "reg_ok s'" using assms by (simp add: inv_def reg_ok_def)
  have p: "peers_ok s'" using assms by (simp add: inv_def peers_ok_def)
  have t1: "sessions s' sid' = Some a' \<and> c' \<in> set (peers (heap s' a'))"
    if "tasks s' c' = Some u" "in_session u = Some (sid', a')" for c' u sid' a'
  proof -
    from that assms have "c' \<noteq> c" by auto
    with that assms have "tasks s c' = Some u" by simp
    with that assms have "sessions s sid' = Some a' \<and> c' \<in> set (peers (heap s a'))"
      unfolding inv_def tasks_ok_def by blast
    then show ?thesis using assms by simp
  qed
  have t2: "tasks s' c' \<noteq> None" if "sessions s' sid' = Some a'" "c' \<in> set (peers (heap s' a'))" for sid' a' c'
  proof -
    from that assms have "tasks s c' \<noteq> None" unfolding inv_def tasks_ok_def by metis
    then show ?thesis using assms by simp
  qed
  from t1 t2 have "tasks_ok s'" unfolding tasks_ok_def by blast
  with r p show ?thesis by (simp add: inv_def)
qed

lemma inv_leave_state:
  assumes i: "inv s" and tk: "tasks s c = Some t" and ins: "in_session t = Some (sid, a)"
    and h: "heap s' = (heap s)(a := (heap s a)\<lparr>peers := remove1 c (peers (heap s a))\<rparr>)"
    and g: "sessions s' = (if remove1 c (peers (heap s a)) = [] then (sessions s)(sid := None) else sessions s)"
    and n: "next_addr s' = next_addr s"
    and k: "tasks s' = (tasks s)(c \<mapsto> Finished e)"
  shows "inv s'"
proof -
  from i tk ins have reg: "sessions s sid = Some a" and mem: "c \<in> set (peers (heap s a))"
    unfolding inv_def tasks_ok_def by blast+
  from i have inj: "\<And>x y b. sessions s x = Some b \<Longrightarrow> sessions s y = Some b \<Longrightarrow> x = y"
    and alloc: "\<And>x b. sessions s x = Some b \<Longrightarrow> b < next_addr s"
    unfolding inv_def reg_ok_def by blast+
  from i have pk: "\<And>x b. sessions s x = Some b \<Longrightarrow>
      peers (heap s b) \<noteq> [] \<and> distinct (peers (heap s b)) \<and>
      (\<not> started (heap s b) \<longrightarrow> length (peers (heap s b)) = 1)"
    unfolding inv_def peers_ok_def by blast
  have sub: "sessions s x = Some b" if "sessions s' x = Some b" for x b
    using that g by (auto split: if_splits)
  have r: "reg_ok s'"
    unfolding reg_ok_def using sub alloc inj n by metis
  have p: "peers_ok s'"
    unfolding peers_ok_def
  proof (intro allI impI)
    fix x b assume xb: "sessions s' x = Some b"
    then have old: "sessions s x = Some b" by (rule sub)
    show "peers (heap s' b) \<noteq> [] \<and> distinct (peers (heap s' b)) \<and>
          (\<not> started (heap s' b) \<longrightarrow> length (peers (heap s' b)) = 1)"
    proof (cases "b = a")
      case False
      then show ?thesis using pk[OF old] h by simp
    next
      case True
      with old reg have "x = sid" using inj by blast
      with xb g have ne: "remove1 c (peers (heap s a)) \<noteq> []" by (auto split: if_splits)
      from pk[OF reg] have d: "distinct (peers (heap s a))"
        and u: "\<not> started (heap s a) \<longrightarrow> length (peers (heap s a)) = 1" by blast+
      have "started (heap s a)"
      proof (rule ccontr)
        assume "\<not> started (heap s a)"
        with u have "length (peers (heap s a)) = 1" by blast
        with mem have "peers (heap s a) = [c]" by (cases "peers (heap s a)") auto
        with ne show False by simp
      qed
      with True ne d show ?thesis using h by simp
    qed
  qed
  have t1: "sessions s' sid' = Some a' \<and> c' \<in> set (peers (heap s' a'))"
    if "tasks s' c' = Some u" "in_session u = Some (sid', a')" for c' u sid' a'
  proof -
    from that k have cc: "c' \<noteq> c" by auto
    with that k have "tasks s c' = Some u" by simp
    with that i have old: "sessions s sid' = Some a'" "c' \<in> set (peers (heap s a'))"
      unfolding inv_def tasks_ok_def by blast+
    show ?thesis
    proof (cases "a' = a")
      case True
      with old reg have e: "sid' = sid" using inj by blast
      from old cc True have m: "c' \<in> set (remove1 c (peers (heap s a)))" by simp
      then have "remove1 c (peers (heap s a)) \<noteq> []" by auto
      with g old e have "sessions s' sid' = Some a'" by simp
      with m True h show ?thesis by simp
    next
      case False
      with old reg have "sid' \<noteq> sid" by auto
      with g old have "sessions s' sid' = Some a'" by simp
      with False old h show ?thesis by simp
    qed
  qed
  have t2: "tasks s' c' \<noteq> None" if "sessions s' sid' = Some a'" "c' \<in> set (peers (heap s' a'))" for sid' a' c'
  proof -
    from that(1) have old: "sessions s sid' = Some a'" by (rule sub)
    from that(2) h have "c' \<in> set (peers (heap s a'))"
      using set_remove1_subset[of c "peers (heap s a)"] by (cases "a' = a") auto
    with old i have "tasks s c' \<noteq> None" unfolding inv_def tasks_ok_def by blast
    then show ?thesis using k by simp
  qed
  from t1 t2 have "tasks_ok s'" unfolding tasks_ok_def by blast
  with r p show ?thesis by (simp add: inv_def)
qed

lemma inv_finish:
  assumes i: "inv s" and tk: "tasks s c = Some t" and ins: "in_session t = Some (sid, a)"
  shows "inv (finish c (Some sid) e s)"
proof (cases "sid = []")
  case True
  then have "leave c (Some sid) s = s" by (simp add: leave_def truthy_def)
  then show ?thesis using i by (intro inv_task_finished[OF i, of _ c e]) (simp_all add: finish_def)
next
  case False
  from i tk ins have reg: "sessions s sid = Some a" and mem: "c \<in> set (peers (heap s a))"
    unfolding inv_def tasks_ok_def by blast+
  show ?thesis
    by (rule inv_leave_state[OF i tk ins, of _ e])
       (simp_all add: finish_def leave_def truthy_def False reg mem Let_def)
qed

lemma inv_create:
  assumes i: "inv s" and fresh: "tasks s c = None" and reg: "sessions s sid = None"
    and g: "sessions s' = (sessions s)(sid \<mapsto> next_addr s)"
    and h: "heap s' = (heap s)(next_addr s := \<lparr>peers = [c], started = False\<rparr>)"
    and n: "next_addr s' = Suc (next_addr s)"
    and k: "tasks s' = (tasks s)(c \<mapsto> Await_recv sid (next_addr s))"
  shows "inv s'"
proof -
  from i have inj: "\<And>x y b. sessions s x = Some b \<Longrightarrow> sessions s y = Some b \<Longrightarrow> x = y"
    and alloc: "\<And>x b. sessions s x = Some b \<Longrightarrow> b < next_addr s"
    unfolding inv_def reg_ok_def by blast+
  from i have pk: "\<And>x b. sessions s x = Some b \<Longrightarrow>
      peers (heap s b) \<noteq> [] \<and> distinct (peers (heap s b)) \<and>
      (\<not> started (heap s b) \<longrightarrow> length (peers (heap s b)) = 1)"
    unfolding inv_def peers_ok_def by blast
  have old: "sessions s x = Some b \<and> b \<noteq> next_addr s" if "sessions s' x = Some b" "x \<noteq> sid" for x b
    using that g alloc[of x b] by auto
  have new: "b = next_addr s" if "sessions s' sid = Some b" for b using that g by simp
  have r: "reg_ok s'"
    unfolding reg_ok_def
  proof (intro conjI allI impI)
    fix x b assume "sessions s' x = Some b"
    then show "b < next_addr s'" using old[of x b] new[of b] alloc[of x b] n by (cases "x = sid") auto
  next
    fix x y b assume "sessions s' x = Some b" "sessions s' y = Some b"
    then show "x = y" using old[of x b] old[of y b] new[of b] inj[of x b y]
      by (cases "x = sid"; cases "y = sid") auto
  qed
  have p: "peers_ok s'"
    unfolding peers_ok_def
  proof (intro allI impI)
    fix x b assume xb: "sessions s' x = Some b"
    show "peers (heap s' b) \<noteq> [] \<and> distinct (peers (heap s' b)) \<and>
          (\<not> started (heap s' b) \<longrightarrow> length (peers (heap s' b)) = 1)"
    proof (cases "x = sid")
      case True
      with xb new have "b = next_addr s" by simp
      then show ?thesis using h by simp
    next
      case False
      from old[OF xb False] pk[of x b] show ?thesis using h by simp
    qed
  qed
  have t1: "sessions s' sid' = Some a' \<and> c' \<in> set (peers (heap s' a'))"
    if "tasks s' c' = Some u" "in_session u = Some (sid', a')" for c' u sid' a'
  proof (cases "c' = c")
    case True
    with that k have "sid' = sid" "a' = next_addr s" by auto
    then show ?thesis using True g h by simp
  next
    case False
    with that k have "tasks s c' = Some u" by simp
    with that i have o: "sessions s sid' = Some a'" "c' \<in> set (peers (heap s a'))"
      unfolding inv_def tasks_ok_def by blast+
    with reg have "sid' \<noteq> sid" by auto
    moreover from o alloc have "a' \<noteq> next_addr s" by auto
    ultimately show ?thesis using o g h by simp
  qed
  have t2: "tasks s' c' \<noteq> None" if "sessions s' sid' = Some a'" "c' \<in> set (peers (heap s' a'))" for sid' a' c'
  proof (cases "sid' = sid")
    case True
    with that new have "a' = next_addr s" by simp
    with that h have "c' = c" by simp
    then show ?thesis using k by simp
  next
    case False
    from old[OF that(1) False] that(2) h have "sessions s sid' = Some a'" "c' \<in> set (peers (heap s a'))" by auto
    with i have "tasks s c' \<noteq> None" unfolding inv_def tasks_ok_def by blast
    then show ?thesis using k by simp
  qed
  from t1 t2 have "tasks_ok s'" unfolding tasks_ok_def by blast
  with r p show ?thesis by (simp add: inv_def)
qed

lemma inv_append:
  assumes i: "inv s" and fresh: "tasks s c = None" and reg: "sessions s sid = Some a"
    and g: "sessions s' = sessions s"
    and h1: "peers (heap s' a) = peers (heap s a) @ [c]" and h2: "started (heap s' a)"
    and h3: "\<And>b. b \<noteq> a \<Longrightarrow> heap s' b = heap s b"
    and n: "next_addr s' = next_addr s"
    and k: "tasks s' = (tasks s)(c \<mapsto> t')" and ins: "in_session t' = Some (sid, a)"
  shows "inv s'"
proof -
  note h = h1 h2 h3
  from i have pk: "\<And>x b. sessions s x = Some b \<Longrightarrow>
      peers (heap s b) \<noteq> [] \<and> distinct (peers (heap s b)) \<and>
      (\<not> started (heap s b) \<longrightarrow> length (peers (heap s b)) = 1)"
    unfolding inv_def peers_ok_def by blast
  from i fresh have notin: "\<And>x b. sessions s x = Some b \<Longrightarrow> c \<notin> set (peers (heap s b))"
    unfolding inv_def tasks_ok_def by blast
  have r: "reg_ok s'" using i g n by (simp add: inv_def reg_ok_def)
  have p: "peers_ok s'"
    unfolding peers_ok_def
  proof (intro allI impI)
    fix x b assume xb: "sessions s' x = Some b"
    with g have o: "sessions s x = Some b" by simp
    show "peers (heap s' b) \<noteq> [] \<and> distinct (peers (heap s' b)) \<and>
          (\<not> started (heap s' b) \<longrightarrow> length (peers (heap s' b)) = 1)"
      using pk[OF o] notin[OF o] h by (cases "b = a") auto
  qed
  have t1: "sessions s' sid' = Some a' \<and> c' \<in> set (peers (heap s' a'))"
    if "tasks s' c' = Some u" "in_session u = Some (sid', a')" for c' u sid' a'
  proof (cases "c' = c")
    case True
    with that k ins have "sid' = sid" "a' = a" by auto
    then show ?thesis using True g h reg by simp
  next
    case False
    with that k have "tasks s c' = Some u" by simp
    with that i have o: "sessions s sid' = Some a'" "c' \<in> set (peers (heap s a'))"
      unfolding inv_def tasks_ok_def by blast+
    then show ?thesis using g h by (cases "a' = a") auto
  qed
  have t2: "tasks s' c' \<noteq> None" if "sessions s' sid' = Some a'" "c' \<in> set (peers (heap s' a'))" for sid' a' c'
  proof (cases "c' = c")
    case True then show ?thesis using k by simp
  next
    case False
    from that g have o: "sessions s sid' = Some a'" by simp
    from that(2) h False have "c' \<in> set (peers (heap s a'))" by (cases "a' = a") auto
    with o i have "tasks s c' \<noteq> None" unfolding inv_def tasks_ok_def by blast
    then show ?thesis using k by simp
  qed
  from t1 t2 have "tasks_ok s'" unfolding tasks_ok_def by blast
  with r p show ?thesis by (simp add: inv_def)
qed

lemma inv_accept:
  assumes i: "inv s" and fresh: "tasks s c = None" and pre: "prefix path_prefix path"
  shows "inv (handle_websocket c path s)"
proof (cases "sessions s (session_id_of path)")
  case None
  show ?thesis
    by (rule inv_create[OF i fresh None]) (simp_all add: accept_new[OF pre None])
next
  case (Some a)
  from i Some have ne: "peers (heap s a) \<noteq> []" unfolding inv_def peers_ok_def by blast
  show ?thesis
  proof (cases "started (heap s a)")
    case True
    show ?thesis
      by (rule inv_append[OF i fresh Some, where t' = "Await_recv (session_id_of path) a"])
         (simp_all add: accept_later[OF pre Some True] True)
  next
    case False
    show ?thesis
      by (rule inv_append[OF i fresh Some, where t' = "Await_start_send (session_id_of path) a"])
         (simp_all add: accept_second[OF pre Some False ne])
  qed
qed

lemma inv_for_peers:
  assumes i: "inv s" and tk: "tasks s c = Some t" and ins: "in_session t = Some (sid, a)"
  shows "inv (for_peers c sid a d k s)"
proof -
  from for_peers_cases[of c sid a d k s]
  consider "for_peers c sid a d k s = loop_top c sid s"
    | j where "for_peers c sid a d k s =
          s\<lparr>trace := trace s @ [Relay_send c (peers (heap s a) ! j) d],
            tasks := (tasks s)(c \<mapsto> Await_relay_send sid a d (Suc j))\<rparr>" by blast
  then show ?thesis
  proof cases
    case 1
    show ?thesis
      by (rule inv_task_upd[OF i tk ins, where t' = "Await_recv sid a"])
         (simp_all add: 1 loop_top_in_loop[OF i tk ins])
  next
    case 2
    show ?thesis
      by (rule inv_task_upd[OF i tk ins, where t' = "Await_relay_send sid a d (Suc j)"])
         (simp_all add: 2)
  qed
qed

lemma inv_step:
  assumes i: "inv s" and st: "step inp s = Some s'"
  shows "inv s'"
proof (cases inp)
  case (Connect c path)
  with st have fresh: "tasks s c = None" and s': "s' = handle_websocket c path s"
    by (auto split: if_splits)
  show ?thesis
  proof (cases "prefix path_prefix path")
    case True
    then show ?thesis using inv_accept[OF i fresh] s' by simp
  next
    case False
    show ?thesis
      by (rule inv_task_finished[OF i, of _ c Returned])
         (simp_all add: s' handle_websocket_def finish_def leave_def truthy_def False)
  qed
next
  case (Recv_msg c d)
  with st obtain sid a where tk: "tasks s c = Some (Await_recv sid a)"
    and s': "s' = for_peers c sid a d 0 s"
    by (auto split: option.splits task.splits)
  show ?thesis unfolding s' by (rule inv_for_peers[OF i tk]) simp
next
  case (Recv_raise c e)
  with st obtain sid a where tk: "tasks s c = Some (Await_recv sid a)"
    and s': "s' = finish c (Some sid) (ending_of (Io e)) s"
    by (auto split: option.splits task.splits)
  show ?thesis unfolding s' by (rule inv_finish[OF i tk]) simp
next
  case (Send_ok c)
  with st consider sid a where "tasks s c = Some (Await_start_send sid a)"
      "s' = s\<lparr>tasks := (tasks s)(c \<mapsto> Await_recv sid a)\<rparr>"
    | sid a d k where "tasks s c = Some (Await_relay_send sid a d k)"
      "s' = for_peers c sid a d k s"
    by (auto split: option.splits task.splits)
  then show ?thesis
  proof cases
    case 1
    show ?thesis
      by (rule inv_task_upd[OF i 1(1), where t' = "Await_recv sid a"]) (simp_all add: 1(2))
  next
    case 2
    show ?thesis unfolding 2(2) by (rule inv_for_peers[OF i 2(1)]) simp
  qed
next
  case (Send_raise c e)
  with st obtain t sid a where tk: "tasks s c = Some t" and ins: "in_session t = Some (sid, a)"
    and s': "s' = finish c (Some sid) (ending_of (Io e)) s"
    by (auto split: option.splits task.splits)
  show ?thesis unfolding s' by (rule inv_finish[OF i tk ins])
qed

lemma reachable_inv: "reachable s \<Longrightarrow> inv s"
  by (induction rule: reachable.induct) (auto intro: inv_init inv_step)

section \<open>The steps of the server, case by case\<close>

lemma step_cases [consumes 2, case_names reject new second later idle relay raise]:
  assumes i: "inv s" and st: "step inp s = Some s'"
  obtains
    (reject) c path where "inp = Connect c path" "\<not> prefix path_prefix path" "tasks s c = None"
      "s' = s\<lparr>tasks := (tasks s)(c \<mapsto> Finished Returned)\<rparr>"
  | (new) c path where "inp = Connect c path" "prefix path_prefix path" "tasks s c = None"
      "sessions s (session_id_of path) = None"
      "s' = s\<lparr>sessions := (sessions s)(session_id_of path \<mapsto> next_addr s),
            heap := (heap s)(next_addr s := \<lparr>peers = [c], started = False\<rparr>),
            next_addr := Suc (next_addr s),
            trace := trace s @ [Join c (session_id_of path) (next_addr s)],
            tasks := (tasks s)(c \<mapsto> Await_recv (session_id_of path) (next_addr s))\<rparr>"
  | (second) c path a p where "inp = Connect c path" "prefix path_prefix path" "tasks s c = None"
      "sessions s (session_id_of path) = Some a" "\<not> started (heap s a)"
      "peers (heap s a) = [p]" "p \<noteq> c"
      "s' = s\<lparr>heap := (heap s)(a := (heap s a)\<lparr>peers := [p, c], started := True\<rparr>),
            trace := trace s @ [Join c (session_id_of path) a,
                       Start_send c p (json_dumps [(''type'', ''start_session'')])],
            tasks := (tasks s)(c \<mapsto> Await_start_send (session_id_of path) a)\<rparr>"
  | (later) c path a where "inp = Connect c path" "prefix path_prefix path" "tasks s c = None"
      "sessions s (session_id_of path) = Some a" "started (heap s a)"
      "s' = s\<lparr>heap := (heap s)(a := (heap s a)\<lparr>peers := peers (heap s a) @ [c]\<rparr>),
            trace := trace s @ [Join c (session_id_of path) a],
            tasks := (tasks s)(c \<mapsto> Await_recv (session_id_of path) a)\<rparr>"
  | (idle) c t sid a where "(\<exists>d. inp = Recv_msg c d) \<or> inp = Send_ok c"
      "tasks s c = Some t" "in_session t = Some (sid, a)"
      "s' = s\<lparr>tasks := (tasks s)(c \<mapsto> Await_recv sid a)\<rparr>"
  | (relay) c t sid a d j where
      "inp = Recv_msg c d \<and> t = Await_recv sid a \<or>
       (\<exists>k. inp = Send_ok c \<and> t = Await_relay_send sid a d k \<and> k \<le> j)"
      "tasks s c = Some t" "in_session t = Some (sid, a)"
      "j < length (peers (heap s a))" "peers (heap s a) ! j \<noteq> c"
      "s' = s\<lparr>trace := trace s @ [Relay_send c (peers (heap s a) ! j) d],
            tasks := (tasks s)(c \<mapsto> Await_relay_send sid a d (Suc j))\<rparr>"
  | (raise) c t sid a e where "inp = Recv_raise c e \<or> inp = Send_raise c e"
      "tasks s c = Some t" "in_session t = Some (sid, a)"
      "s' = finish c (Some sid) (ending_of (Io e)) s"
proof (cases inp)
  case (Connect c path)
  with st have fresh: "tasks s c = None" and s': "s' = handle_websocket c path s"
    by (auto split: if_splits)
  show ?thesis
  proof (cases "prefix path_prefix path")
    case False
    then have "s' = s\<lparr>tasks := (tasks s)(c \<mapsto> Finished Returned)\<rparr>"
      by (simp add: s' handle_websocket_def finish_def leave_def truthy_def)
    with Connect False fresh show ?thesis by (rule reject)
  next
    case True
    show ?thesis
    proof (cases "sessions s (session_id_of path)")
      case None
      show ?thesis
        by (rule new[OF Connect True fresh None]) (simp add: s' accept_new[OF True None])
    next
      case (Some a)
      from i Some have ne: "peers (heap s a) \<noteq> []"
        and one: "\<not> started (heap s a) \<longrightarrow> length (peers (heap s a)) = 1"
        unfolding inv_def peers_ok_def by blast+
      from i fresh Some have notin: "c \<notin> set (peers (heap s a))"
        unfolding inv_def tasks_ok_def by blast
      show ?thesis
      proof (cases "started (heap s a)")
        case started: True
        show ?thesis
          by (rule later[OF Connect True fresh Some started])
             (simp add: s' accept_later[OF True Some started])
      next
        case False
        with one obtain p where p: "peers (heap s a) = [p]"
          by (cases "peers (heap s a)") auto
        with notin have pc: "p \<noteq> c" by auto
        show ?thesis
          by (rule second[OF Connect True fresh Some False p pc])
             (simp add: s' accept_second[OF True Some False ne] p)
      qed
    qed
  qed
next
  case (Recv_msg c d)
  with st obtain sid a where tk: "tasks s c = Some (Await_recv sid a)"
    and s': "s' = for_peers c sid a d 0 s"
    by (auto split: option.splits task.splits)
  have ins: "in_session (Await_recv sid a) = Some (sid, a)" by simp
  from for_peers_cases[of c sid a d 0 s]
  consider "s' = loop_top c sid s"
    | j where "j < length (peers (heap s a))" "peers (heap s a) ! j \<noteq> c"
        "s' = s\<lparr>trace := trace s @ [Relay_send c (peers (heap s a) ! j) d],
              tasks := (tasks s)(c \<mapsto> Await_relay_send sid a d (Suc j))\<rparr>"
    unfolding s' by blast
  then show ?thesis
  proof cases
    case 1
    show ?thesis
      by (rule idle[OF _ tk ins]) (simp_all add: Recv_msg 1 loop_top_in_loop[OF i tk ins])
  next
    case 2
    show ?thesis
      by (rule relay[OF _ tk ins 2]) (simp add: Recv_msg)
  qed
next
  case (Recv_raise c e)
  with st obtain sid a where tk: "tasks s c = Some (Await_recv sid a)"
    and s': "s' = finish c (Some sid) (ending_of (Io e)) s"
    by (auto split: option.splits task.splits)
  show ?thesis by (rule raise[OF _ tk _ s']) (simp_all add: Recv_raise)
next
  case (Send_ok c)
  with st consider sid a where "tasks s c = Some (Await_start_send sid a)"
      "s' = s\<lparr>tasks := (tasks s)(c \<mapsto> Await_recv sid a)\<rparr>"
    | sid a d k where "tasks s c = Some (Await_relay_send sid a d k)"
      "s' = for_peers c sid a d k s"
    by (auto split: option.splits task.splits)
  then show ?thesis
  proof cases
    case 1
    show ?thesis by (rule idle[OF _ 1(1) _ 1(2)]) (simp_all add: Send_ok)
  next
    case 2
    have ins: "in_session (Await_relay_send sid a d k) = Some (sid, a)" by simp
    from for_peers_cases[of c sid a d k s]
    consider "s' = loop_top c sid s"
      | j where "k \<le> j" "j < length (peers (heap s a))" "peers (heap s a) ! j \<noteq> c"
          "s' = s\<lparr>trace := trace s @ [Relay_send c (peers (heap s a) ! j) d],
                tasks := (tasks s)(c \<mapsto> Await_relay_send sid a d (Suc j))\<rparr>"
      unfolding 2(2) by blast
    then show ?thesis
    proof cases
      case 1
      show ?thesis
        by (rule idle[OF _ 2(1) ins]) (simp_all add: Send_ok 1 loop_top_in_loop[OF i 2(1) ins])
    next
      case inner: 2
      show ?thesis
        by (rule relay[OF _ 2(1) ins inner(2,3,4)]) (simp add: Send_ok inner(1))
    qed
  qed
next
  case (Send_raise c e)
  with st obtain t sid a where tk: "tasks s c = Some t" and ins: "in_session t = Some (sid, a)"
    and s': "s' = finish c (Some sid) (ending_of (Io e)) s"
    by (auto split: option.splits task.splits)
  show ?thesis by (rule raise[OF _ tk ins s']) (simp add: Send_raise)
qed

lemma finish_effect:
  assumes i: "inv s" and tk: "tasks s c = Some t" and ins: "in_session t = Some (sid, a)"
  shows "finish c (Some sid) e s =
     (if sid = [] then s\<lparr>tasks := (tasks s)(c \<mapsto> Finished e)\<rparr>
      else if remove1 c (peers (heap s a)) = []
      then s\<lparr>heap := (heap s)(a := (heap s a)\<lparr>peers := []\<rparr>),
             sessions := (sessions s)(sid := None),
             tasks := (tasks s)(c \<mapsto> Finished e)\<rparr>
      else s\<lparr>heap := (heap s)(a := (heap s a)\<lparr>peers := remove1 c (peers (heap s a))\<rparr>),
             tasks := (tasks s)(c \<mapsto> Finished e)\<rparr>)"
proof -
  from i tk ins have reg: "sessions s sid = Some a" and mem: "c \<in> set (peers (heap s a))"
    unfolding inv_def tasks_ok_def by blast+
  show ?thesis
    by (simp add: finish_def leave_def truthy_def reg mem Let_def)
qed

lemma step_task:
  assumes i: "inv s" and st: "step inp s = Some s'"
  shows "\<exists>c t'. tasks s' = (tasks s)(c \<mapsto> t') \<and> t' \<noteq> Finished (Traceback Session_is_None)"
proof (cases inp)
  case (Connect c path)
  with st have fresh: "tasks s c = None" and s': "s' = handle_websocket c path s"
    by (auto split: if_splits)
  show ?thesis
  proof (cases "prefix path_prefix path")
    case False
    then have "tasks s' = (tasks s)(c \<mapsto> Finished Returned)"
      by (simp add: s' handle_websocket_def tasks_finish)
    then show ?thesis by blast
  next
    case True
    show ?thesis
    proof (cases "sessions s (session_id_of path)")
      case None
      have "tasks s' = (tasks s)(c \<mapsto> Await_recv (session_id_of path) (next_addr s))"
        by (simp add: s' accept_new[OF True None])
      then show ?thesis by blast
    next
      case (Some a)
      from i Some have ne: "peers (heap s a) \<noteq> []" unfolding inv_def peers_ok_def by blast
      show ?thesis
      proof (cases "started (heap s a)")
        case True
        have "tasks s' = (tasks s)(c \<mapsto> Await_recv (session_id_of path) a)"
          by (simp add: s' accept_later[OF \<open>prefix path_prefix path\<close> Some True])
        then show ?thesis by blast
      next
        case False
        have "tasks s' = (tasks s)(c \<mapsto> Await_start_send (session_id_of path) a)"
          by (simp add: s' accept_second[OF True Some False ne])
        then show ?thesis by blast
      qed
    qed
  qed
next
  case (Recv_msg c d)
  with st obtain sid a where tk: "tasks s c = Some (Await_recv sid a)"
    and s': "s' = for_peers c sid a d 0 s"
    by (auto split: option.splits task.splits)
  have lt: "loop_top c sid s = s\<lparr>tasks := (tasks s)(c \<mapsto> Await_recv sid a)\<rparr>"
    by (rule loop_top_in_loop[OF i tk]) simp
  from for_peers_cases[of c sid a d 0 s] lt s'
  have "tasks s' = (tasks s)(c \<mapsto> Await_recv sid a) \<or>
        (\<exists>j. tasks s' = (tasks s)(c \<mapsto> Await_relay_send sid a d (Suc j)))" by auto
  then show ?thesis by blast
next
  case (Recv_raise c e)
  with st obtain sid a where "s' = finish c (Some sid) (ending_of (Io e)) s"
    by (auto split: option.splits task.splits)
  then have "tasks s' = (tasks s)(c \<mapsto> Finished (ending_of (Io e)))" by (simp add: tasks_finish)
  then show ?thesis using ending_of_io by blast
next
  case (Send_ok c)
  with st consider sid a where "tasks s c = Some (Await_start_send sid a)"
      "s' = s\<lparr>tasks := (tasks s)(c \<mapsto> Await_recv sid a)\<rparr>"
    | sid a d k where "tasks s c = Some (Await_relay_send sid a d k)"
      "s' = for_peers c sid a d k s"
    by (auto split: option.splits task.splits)
  then show ?thesis
  proof cases
    case 1
    then have "tasks s' = (tasks s)(c \<mapsto> Await_recv sid a)" by simp
    then show ?thesis by blast
  next
    case 2
    have lt: "loop_top c sid s = s\<lparr>tasks := (tasks s)(c \<mapsto> Await_recv sid a)\<rparr>"
      by (rule loop_top_in_loop[OF i 2(1)]) simp
    from for_peers_cases[of c sid a d k s] lt 2(2)
    have "tasks s' = (tasks s)(c \<mapsto> Await_recv sid a) \<or>
        (\<exists>j. tasks s' = (tasks s)(c \<mapsto> Await_relay_send sid a d (Suc j)))" by auto
    then show ?thesis by blast
  qed
next
  case (Send_raise c e)
  with st obtain sid where "s' = finish c (Some sid) (ending_of (Io e)) s"
    by (auto split: option.splits task.splits)
  then have "tasks s' = (tasks s)(c \<mapsto> Finished (ending_of (Io e)))" by (simp add: tasks_finish)
  then show ?thesis using ending_of_io by blast
qed

lemma reachable_no_fault: "reachable s \<Longrightarrow> no_fault s"
proof (induction rule: reachable.induct)
  case reachable_init
  show ?case by (simp add: no_fault_def init_state_def)
next
  case (reachable_step s i s')
  from step_task[OF reachable_inv[OF reachable_step(1)] reachable_step(2)]
  obtain c t' where "tasks s' = (tasks s)(c \<mapsto> t')" "t' \<noteq> Finished (Traceback Session_is_None)"
    by blast
  with reachable_step(3) show ?case by (auto simp: no_fault_def)
qed

lemma joins_ok_step:
  assumes i: "inv s" and j: "joins_ok s" and st: "step inp s = Some s'"
  shows "joins_ok s'"
proof -
  from j have un: "\<And>a. next_addr s \<le> a \<Longrightarrow> joiners a (trace s) = []"
    and jp: "\<And>sid a. sessions s sid = Some a \<Longrightarrow> \<not> started (heap s a) \<Longrightarrow>
               joiners a (trace s) = peers (heap s a)"
    unfolding joins_ok_def by blast+
  from i have inj: "\<And>x y b. sessions s x = Some b \<Longrightarrow> sessions s y = Some b \<Longrightarrow> x = y"
    and alloc: "\<And>x b. sessions s x = Some b \<Longrightarrow> b < next_addr s"
    unfolding inv_def reg_ok_def by blast+
  from i st show ?thesis
  proof (cases rule: step_cases)
    case (reject c path)
    then show ?thesis using j by (simp add: joins_ok_def)
  next
    case (new c path)
    have "joiners a (trace s') = []" if "next_addr s' \<le> a" for a
      using that un[of a] by (simp add: new(5) joiners_append)
    moreover have "joiners a (trace s') = peers (heap s' a)"
      if "sessions s' sid = Some a" "\<not> started (heap s' a)" for sid a
    proof (cases "sid = session_id_of path")
      case True
      with that have "a = next_addr s" by (simp add: new(5))
      then show ?thesis using un[of a] by (simp add: new(5) joiners_append)
    next
      case False
      with that have o: "sessions s sid = Some a" by (simp add: new(5))
      with alloc have ne: "a \<noteq> next_addr s" by auto
      with that o jp[of sid a] show ?thesis by (simp add: new(5) joiners_append)
    qed
    ultimately show ?thesis unfolding joins_ok_def by blast
  next
    case (second c path a p)
    from alloc second(4) have al: "a < next_addr s" by blast
    have "joiners b (trace s') = []" if "next_addr s' \<le> b" for b
      using that un[of b] al by (simp add: second(8) joiners_append)
    moreover have "joiners b (trace s') = peers (heap s' b)"
      if "sessions s' sid = Some b" "\<not> started (heap s' b)" for sid b
    proof -
      from that have ne: "b \<noteq> a" by (auto simp: second(8))
      with that jp[of sid b] show ?thesis by (simp add: second(8) joiners_append)
    qed
    ultimately show ?thesis unfolding joins_ok_def by blast
  next
    case (later c path a)
    from alloc later(4) have al: "a < next_addr s" by blast
    have "joiners b (trace s') = []" if "next_addr s' \<le> b" for b
      using that un[of b] al by (simp add: later(6) joiners_append)
    moreover have "joiners b (trace s') = peers (heap s' b)"
      if "sessions s' sid = Some b" "\<not> started (heap s' b)" for sid b
    proof -
      from that later(5) have ne: "b \<noteq> a" by (auto simp: later(6))
      with that jp[of sid b] show ?thesis by (simp add: later(6) joiners_append)
    qed
    ultimately show ?thesis unfolding joins_ok_def by blast
  next
    case (idle c t sid a)
    then show ?thesis using j by (simp add: joins_ok_def)
  next
    case (relay c t sid a d k)
    then show ?thesis using j by (simp add: joins_ok_def joiners_append)
  next
    case (raise c t sid a e)
    note fe = finish_effect[OF i raise(2,3), of "ending_of (Io e)"]
    from i raise(2,3) have reg: "sessions s sid = Some a" and mem: "c \<in> set (peers (heap s a))"
      unfolding inv_def tasks_ok_def by blast+
    from i reg have one: "\<not> started (heap s a) \<longrightarrow> length (peers (heap s a)) = 1"
      unfolding inv_def peers_ok_def by blast
    have "joiners b (trace s') = []" if "next_addr s' \<le> b" for b
      using that un[of b] by (simp add: raise(4) trace_finish next_addr_finish)
    moreover have "joiners b (trace s') = peers (heap s' b)"
      if "sessions s' x = Some b" "\<not> started (heap s' b)" for x b
    proof (cases "sid = []")
      case True
      have e1: "s' = s\<lparr>tasks := (tasks s)(c \<mapsto> Finished (ending_of (Io e)))\<rparr>"
        unfolding raise(4) fe using True by simp
      from that jp[of x b] show ?thesis by (simp add: e1)
    next
      case ne: False
      show ?thesis
      proof (cases "remove1 c (peers (heap s a)) = []")
        case True
        have e2: "s' = s\<lparr>heap := (heap s)(a := (heap s a)\<lparr>peers := []\<rparr>),
             sessions := (sessions s)(sid := None),
             tasks := (tasks s)(c \<mapsto> Finished (ending_of (Io e)))\<rparr>"
          unfolding raise(4) fe using True ne by simp
        from that have o: "sessions s x = Some b" "x \<noteq> sid"
          by (auto simp: e2 split: if_splits)
        with reg inj have "b \<noteq> a" by blast
        with that o jp[of x b] show ?thesis by (simp add: e2)
      next
        case False
        have e3: "s' = s\<lparr>heap := (heap s)(a := (heap s a)\<lparr>peers := remove1 c (peers (heap s a))\<rparr>),
             tasks := (tasks s)(c \<mapsto> Finished (ending_of (Io e)))\<rparr>"
          unfolding raise(4) fe using False ne by simp
        from that have o: "sessions s x = Some b" by (simp add: e3)
        have "b \<noteq> a"
        proof
          assume ba: "b = a"
          with that have "\<not> started (heap s a)" by (simp add: e3)
          with one have "length (peers (heap s a)) = 1" by blast
          with mem have "peers (heap s a) = [c]" by (cases "peers (heap s a)") auto
          with False show False by simp
        qed
        with that o jp[of x b] show ?thesis by (simp add: e3)
      qed
    qed
    ultimately show ?thesis unfolding joins_ok_def by blast
  qed
qed

lemma reachable_joins_ok: "reachable s \<Longrightarrow> joins_ok s"
proof (induction rule: reachable.induct)
  case reachable_init
  show ?case by (simp add: joins_ok_def init_state_def)
next
  case (reachable_step s i s')
  then show ?case using joins_ok_step[OF reachable_inv] by blast
qed

lemma started_joined_step:
  assumes i: "inv s" and j: "joins_ok s" and k: "started_joined s" and st: "step inp s = Some s'"
  shows "started_joined s'"
proof -
  from k have sj: "\<And>sid a. sessions s sid = Some a \<Longrightarrow> started (heap s a) \<Longrightarrow>
               2 \<le> length (joiners a (trace s))"
    unfolding started_joined_def by blast
  from j have jp: "\<And>sid a. sessions s sid = Some a \<Longrightarrow> \<not> started (heap s a) \<Longrightarrow>
               joiners a (trace s) = peers (heap s a)"
    unfolding joins_ok_def by blast
  from i have alloc: "\<And>x b. sessions s x = Some b \<Longrightarrow> b < next_addr s"
    unfolding inv_def reg_ok_def by blast
  from i st show ?thesis
  proof (cases rule: step_cases)
    case (reject c path)
    then show ?thesis using k by (simp add: started_joined_def)
  next
    case (idle c t sid a)
    then show ?thesis using k by (simp add: started_joined_def)
  next
    case (relay c t sid a d n)
    then show ?thesis using k by (simp add: started_joined_def joiners_append)
  next
    case (new c path)
    have "2 \<le> length (joiners b (trace s'))"
      if "sessions s' x = Some b" "started (heap s' b)" for x b
    proof (cases "x = session_id_of path")
      case True
      with that show ?thesis by (simp add: new(5))
    next
      case False
      with that have o: "sessions s x = Some b" by (simp add: new(5))
      with alloc have ne: "b \<noteq> next_addr s" by auto
      with that o sj[of x b] show ?thesis by (simp add: new(5) joiners_append)
    qed
    then show ?thesis unfolding started_joined_def by blast
  next
    case (second c path a p)
    from jp[OF second(4,5)] second(6) have jn: "joiners a (trace s) = [p]" by simp
    have "2 \<le> length (joiners b (trace s'))"
      if "sessions s' x = Some b" "started (heap s' b)" for x b
    proof (cases "b = a")
      case True
      with jn show ?thesis by (simp add: second(8) joiners_append)
    next
      case False
      with that sj[of x b] show ?thesis by (simp add: second(8) joiners_append)
    qed
    then show ?thesis unfolding started_joined_def by blast
  next
    case (later c path a)
    have "2 \<le> length (joiners b (trace s'))"
      if "sessions s' x = Some b" "started (heap s' b)" for x b
    proof (cases "b = a")
      case True
      with sj[OF later(4,5)] show ?thesis by (simp add: later(6) joiners_append)
    next
      case False
      with that sj[of x b] show ?thesis by (simp add: later(6) joiners_append)
    qed
    then show ?thesis unfolding started_joined_def by blast
  next
    case (raise c t sid a e)
    have "2 \<le> length (joiners b (trace s'))"
      if "sessions s' x = Some b" "started (heap s' b)" for x b
      using that sj[of x b] sessions_finish_sub[of c "Some sid" "ending_of (Io e)" s x b]
      by (simp add: raise(4) started_finish trace_finish)
    then show ?thesis unfolding started_joined_def by blast
  qed
qed

lemma reachable_started_joined: "reachable s \<Longrightarrow> started_joined s"
proof (induction rule: reachable.induct)
  case reachable_init
  show ?case by (simp add: started_joined_def init_state_def)
next
  case (reachable_step s i s')
  then show ?case
    using started_joined_step[OF reachable_inv reachable_joins_ok] by blast
qed

lemma accept_task:
  assumes i: "inv s" and pre: "prefix path_prefix path"
  shows "\<exists>a t. tasks (handle_websocket c path s) c = Some t \<and>
           in_session t = Some (session_id_of path, a)"
proof (cases "sessions s (session_id_of path)")
  case None
  show ?thesis by (simp add: accept_new[OF pre None])
next
  case (Some a)
  from i Some have ne: "peers (heap s a) \<noteq> []" unfolding inv_def peers_ok_def by blast
  show ?thesis
  proof (cases "started (heap s a)")
    case True
    show ?thesis by (simp add: accept_later[OF pre Some True])
  next
    case False
    show ?thesis by (simp add: accept_second[OF pre Some False ne])
  qed
qed

lemma relay_run:
  assumes "inv s" and "tasks s c = Some t" and "in_session t = Some (sid, a)"
  shows "run (replicate (length (filter (\<lambda>p. p \<noteq> c) (drop k (peers (heap s a))))) (Send_ok c))
             (for_peers c sid a d k s)
         = Some (s\<lparr>trace := trace s @ map (\<lambda>p. Relay_send c p d)
                                        (filter (\<lambda>p. p \<noteq> c) (drop k (peers (heap s a)))),
                  tasks := (tasks s)(c \<mapsto> Await_recv sid a)\<rparr>)"
  using assms
proof (induction "length (peers (heap s a)) - k" arbitrary: k s t)
  case 0
  then have ge: "length (peers (heap s a)) \<le> k" by simp
  then have fp: "for_peers c sid a d k s = loop_top c sid s"
    by (subst for_peers.simps) simp
  have triv: "s\<lparr>trace := trace s @ [], tasks := (tasks s)(c \<mapsto> Await_recv sid a)\<rparr>
      = s\<lparr>tasks := (tasks s)(c \<mapsto> Await_recv sid a)\<rparr>" by (cases s) simp
  from ge have "drop k (peers (heap s a)) = []" by simp
  then show ?case
    unfolding fp loop_top_in_loop[OF 0(2,3,4)] by (simp only: triv filter.simps list.map list.size replicate.simps run.simps)
next
  case (Suc n)
  let ?ps = "peers (heap s a)"
  from Suc(2) have lt: "k < length ?ps" by simp
  then have dr: "drop k ?ps = ?ps ! k # drop (Suc k) ?ps" by (simp add: Cons_nth_drop_Suc)
  show ?case
  proof (cases "?ps ! k = c")
    case True
    have fp: "for_peers c sid a d k s = for_peers c sid a d (Suc k) s"
      using lt True by (subst for_peers.simps) simp
    from Suc(2) have n: "n = length ?ps - Suc k" by simp
    from Suc(1)[OF n Suc(3,4,5)] show ?thesis
      by (simp add: fp dr True)
  next
    case False
    let ?s1 = "s\<lparr>trace := trace s @ [Relay_send c (?ps ! k) d],
                 tasks := (tasks s)(c \<mapsto> Await_relay_send sid a d (Suc k))\<rparr>"
    have fp: "for_peers c sid a d k s = ?s1"
      using lt False by (subst for_peers.simps) simp
    have i1: "inv ?s1"
      by (rule inv_task_upd[OF Suc(3,4,5), where t' = "Await_relay_send sid a d (Suc k)"]) simp_all
    have t1: "tasks ?s1 c = Some (Await_relay_send sid a d (Suc k))" by simp
    have n: "n = length (peers (heap ?s1 a)) - Suc k" using Suc(2) by simp
    have st: "step (Send_ok c) ?s1 = Some (for_peers c sid a d (Suc k) ?s1)" by simp
    from Suc(1)[OF n i1 t1] have
      "run (replicate (length (filter (\<lambda>p. p \<noteq> c) (drop (Suc k) ?ps))) (Send_ok c))
           (for_peers c sid a d (Suc k) ?s1)
       = Some (?s1\<lparr>trace := trace ?s1 @ map (\<lambda>p. Relay_send c p d)
                                        (filter (\<lambda>p. p \<noteq> c) (drop (Suc k) ?ps)),
                  tasks := (tasks ?s1)(c \<mapsto> Await_recv sid a)\<rparr>)"
      by simp
    then show ?thesis
      unfolding fp dr using False st by simp
  qed
qed

section \<open>The start signal\<close>

text \<open>
  Claim C1. A step of the server calls \<^verbatim>\<open>send\<close> at line 47, for the handler of
  \<open>c\<close> on the websocket \<open>p\<close> with the text \<open>m\<close>, exactly if the step is the
  connection of \<open>c\<close> to a registered session whose only join so far was the one of
  \<open>p\<close>, and \<open>m\<close> is the JSON text of
  \<^verbatim>\<open>{"type": "start_session"}\<close>: the signal is sent when the second peer joins, to the
  peer that joined first. In that step nothing else is sent, \<open>p\<close> is at position 0 of the
  peer list and \<open>c\<close>, which is another websocket, at position 1, and the handler of \<open>c\<close>
  is suspended in that \<^verbatim>\<open>send\<close>, so it has not yet reached its
  \<^verbatim>\<open>recv\<close>. The connection of a third or later peer, to a started session,
  sends no start signal.
\<close>
theorem start_signal_to_first_peer:
  assumes "reachable s" and "step inp s = Some s'"
  shows "(Start_send c p m \<in> set (new_events s s') \<longleftrightarrow>
            (\<exists>path a. inp = Connect c path \<and> prefix path_prefix path \<and>
               sessions s (drop (length path_prefix) path) = Some a \<and>
               joiners a (trace s) = [p] \<and>
               m = json_dumps [(''type'', ''start_session'')])) \<and>
         (Start_send c p m \<in> set (new_events s s') \<longrightarrow>
            (\<exists>sid a. new_events s s' = [Join c sid a, Start_send c p m] \<and>
               sessions s' sid = Some a \<and> peers (heap s' a) = [p, c] \<and> p \<noteq> c \<and>
               tasks s' c = Some (Await_start_send sid a)))"
proof -
  note i = reachable_inv[OF assms(1)]
  from reachable_joins_ok[OF assms(1)]
  have jp: "\<And>sid a. sessions s sid = Some a \<Longrightarrow> \<not> started (heap s a) \<Longrightarrow>
               joiners a (trace s) = peers (heap s a)"
    unfolding joins_ok_def by blast
  from reachable_started_joined[OF assms(1)]
  have sj: "\<And>sid a. sessions s sid = Some a \<Longrightarrow> started (heap s a) \<Longrightarrow>
               2 \<le> length (joiners a (trace s))"
    unfolding started_joined_def by blast
  from i assms(2) show ?thesis
  proof (cases rule: step_cases)
    case (reject c' path)
    have "new_events s s' = []" by (simp add: reject(4))
    with reject(1,2) show ?thesis by auto
  next
    case (new c' path)
    have "new_events s s' = [Join c' (session_id_of path) (next_addr s)]" by (simp add: new(5))
    with new(1,2,4) show ?thesis by (auto simp: session_id_of_prefix)
  next
    case (later c' path a)
    have "new_events s s' = [Join c' (session_id_of path) a]" by (simp add: later(6))
    moreover from sj[OF later(4,5)] have "joiners a (trace s) \<noteq> [p]" by auto
    ultimately show ?thesis using later(1,2,4) by (auto simp: session_id_of_prefix)
  next
    case (idle c' t sid a)
    have "new_events s s' = []" by (simp add: idle(4))
    with idle(1) show ?thesis by auto
  next
    case (relay c' t sid a d k)
    have "new_events s s' = [Relay_send c' (peers (heap s a) ! k) d]" by (simp add: relay(6))
    with relay(1) show ?thesis by auto
  next
    case (raise c' t sid a e)
    have "new_events s s' = []" by (simp add: raise(4) trace_finish)
    with raise(1) show ?thesis by auto
  next
    case (second c' path a p')
    let ?sid = "session_id_of path"
    let ?msg = "json_dumps [(''type'', ''start_session'')]"
    have ev: "new_events s s' = [Join c' ?sid a, Start_send c' p' ?msg]" by (simp add: second(8))
    have sid: "?sid = drop (length path_prefix) path" by (rule session_id_of_prefix[OF second(2)])
    from jp[OF second(4,5)] second(6) have jn: "joiners a (trace s) = [p']" by simp
    have after: "sessions s' ?sid = Some a" "peers (heap s' a) = [p', c']"
      "tasks s' c' = Some (Await_start_send ?sid a)"
      by (simp_all add: second(8) second(4))
    have l2r: "\<exists>path a. inp = Connect c path \<and> prefix path_prefix path \<and>
               sessions s (drop (length path_prefix) path) = Some a \<and>
               joiners a (trace s) = [p] \<and> m = ?msg"
      if "Start_send c p m \<in> set (new_events s s')"
    proof -
      from that ev have "c = c'" "p = p'" "m = ?msg" by auto
      with second(1,2,4) jn sid show ?thesis by auto
    qed
    have r2l: "Start_send c p m \<in> set (new_events s s')"
      if "\<exists>path a. inp = Connect c path \<and> prefix path_prefix path \<and>
               sessions s (drop (length path_prefix) path) = Some a \<and>
               joiners a (trace s) = [p] \<and> m = ?msg"
    proof -
      from that second(1) sid second(4) jn have "c = c'" "p = p'" "m = ?msg" by auto
      with ev show ?thesis by simp
    qed
    have more: "\<exists>sid a. new_events s s' = [Join c sid a, Start_send c p m] \<and>
               sessions s' sid = Some a \<and> peers (heap s' a) = [p, c] \<and> p \<noteq> c \<and>
               tasks s' c = Some (Await_start_send sid a)"
      if "Start_send c p m \<in> set (new_events s s')"
    proof -
      from that ev have "c = c'" "p = p'" "m = ?msg" by auto
      with ev after second(7) show ?thesis by auto
    qed
    from l2r r2l more show ?thesis by blast
  qed
qed

theorem start_signal_to_first_peer_witness:
  "reachable (after [Connect 1 ''/v1/ooo/abc'']) \<and>
   step (Connect 2 ''/v1/ooo/abc'') (after [Connect 1 ''/v1/ooo/abc''])
     = Some (after [Connect 1 ''/v1/ooo/abc'', Connect 2 ''/v1/ooo/abc'']) \<and>
   prefix path_prefix ''/v1/ooo/abc'' \<and>
   sessions (after [Connect 1 ''/v1/ooo/abc'']) (drop (length path_prefix) ''/v1/ooo/abc'') = Some 0 \<and>
   \<not> started (heap (after [Connect 1 ''/v1/ooo/abc'']) 0) \<and>
   joiners 0 (trace (after [Connect 1 ''/v1/ooo/abc''])) = [1] \<and>
   Start_send 2 1 (json_dumps [(''type'', ''start_session'')])
     \<in> set (new_events (after [Connect 1 ''/v1/ooo/abc''])
               (after [Connect 1 ''/v1/ooo/abc'', Connect 2 ''/v1/ooo/abc'']))"
proof -
  let ?s = "after [Connect 1 ''/v1/ooo/abc'']"
  let ?s' = "after [Connect 1 ''/v1/ooo/abc'', Connect 2 ''/v1/ooo/abc'']"
  have r: "reachable ?s" by (rule reachable_after)
  have st: "step (Connect 2 ''/v1/ooo/abc'') ?s = Some ?s'" by (simp add: eval_defs)
  have p: "prefix path_prefix ''/v1/ooo/abc''" by (simp add: path_prefix_def)
  have g: "sessions ?s (drop (length path_prefix) ''/v1/ooo/abc'') = Some 0"
    by (simp add: eval_defs)
  have u: "\<not> started (heap ?s 0)" by (simp add: eval_defs)
  have j: "joiners 0 (trace ?s) = [1]" by (simp add: eval_defs)
  from start_signal_to_first_peer[OF r st, of 2 1 "json_dumps [(''type'', ''start_session'')]"]
    p g u j
  have "Start_send 2 1 (json_dumps [(''type'', ''start_session'')]) \<in> set (new_events ?s ?s')"
    by blast
  with r st p g u j show ?thesis by blast
qed

section \<open>The started flag\<close>

text \<open>
  Claim C2. In every step of the server, for every session object: a session object that
  exists and is started stays started; the flag of an existing object goes from false to
  true in the step exactly if it was false and the step takes the peer list from one
  peer to two, so not while there is a single peer and not when a peer joins a session
  that is started; and an object that the step creates has the flag false.
\<close>
theorem started_once:
  assumes "reachable s" and "step inp s = Some s'"
  shows "(a < next_addr s \<longrightarrow> started (heap s a) \<longrightarrow> started (heap s' a)) \<and>
         (a < next_addr s \<longrightarrow>
            ((\<not> started (heap s a) \<and> started (heap s' a)) \<longleftrightarrow>
             (\<not> started (heap s a) \<and> length (peers (heap s a)) = 1 \<and>
              length (peers (heap s' a)) = 2))) \<and>
         (next_addr s \<le> a \<and> a < next_addr s' \<longrightarrow> \<not> started (heap s' a))"
proof -
  note i = reachable_inv[OF assms(1)]
  from i assms(2) show ?thesis
  proof (cases rule: step_cases)
    case (reject c path)
    then show ?thesis by auto
  next
    case (new c path)
    then show ?thesis by auto
  next
    case (second c path b p)
    then show ?thesis by auto
  next
    case (later c path b)
    then show ?thesis by auto
  next
    case (idle c t sid b)
    then show ?thesis by auto
  next
    case (relay c t sid b d k)
    then show ?thesis by auto
  next
    case (raise c t sid b e)
    note fe = finish_effect[OF i raise(2,3), of "ending_of (Io e)"]
    from i raise(2,3) have mem: "c \<in> set (peers (heap s b))"
      unfolding inv_def tasks_ok_def by blast
    then have len: "length (remove1 c (peers (heap s b))) < length (peers (heap s b))"
      by (simp add: length_remove1) (cases "peers (heap s b)"; simp)
    have st: "started (heap s' a) = started (heap s a)"
      unfolding raise(4) fe by simp
    have le: "length (peers (heap s' a)) \<le> length (peers (heap s a))"
      unfolding raise(4) fe using len by simp
    have nx: "next_addr s' = next_addr s" unfolding raise(4) by (rule next_addr_finish)
    from st le nx show ?thesis by auto
  qed
qed

theorem started_once_witness:
  "reachable (after [Connect 1 ''/v1/ooo/abc'']) \<and>
   step (Connect 2 ''/v1/ooo/abc'') (after [Connect 1 ''/v1/ooo/abc''])
     = Some (after [Connect 1 ''/v1/ooo/abc'', Connect 2 ''/v1/ooo/abc'']) \<and>
   0 < next_addr (after [Connect 1 ''/v1/ooo/abc'']) \<and>
   \<not> started (heap (after [Connect 1 ''/v1/ooo/abc'']) 0) \<and>
   length (peers (heap (after [Connect 1 ''/v1/ooo/abc'']) 0)) = 1 \<and>
   length (peers (heap (after [Connect 1 ''/v1/ooo/abc'', Connect 2 ''/v1/ooo/abc'']) 0)) = 2 \<and>
   started (heap (after [Connect 1 ''/v1/ooo/abc'', Connect 2 ''/v1/ooo/abc'']) 0)"
proof -
  let ?s = "after [Connect 1 ''/v1/ooo/abc'']"
  let ?s' = "after [Connect 1 ''/v1/ooo/abc'', Connect 2 ''/v1/ooo/abc'']"
  have r: "reachable ?s" by (rule reachable_after)
  have st: "step (Connect 2 ''/v1/ooo/abc'') ?s = Some ?s'" by (simp add: eval_defs)
  have n: "0 < next_addr ?s" by (simp add: eval_defs)
  have u: "\<not> started (heap ?s 0)" by (simp add: eval_defs)
  have l1: "length (peers (heap ?s 0)) = 1" by (simp add: eval_defs)
  have l2: "length (peers (heap ?s' 0)) = 2" by (simp add: eval_defs)
  from started_once[OF r st, of 0] n u l1 l2 have "started (heap ?s' 0)" by blast
  with r st n u l1 l2 show ?thesis by blast
qed

section \<open>Relaying a message\<close>

text \<open>
  Claim C3 says that every message received from a peer is sent to every other peer that
  is in the peer list of the session. The first run below has the peers 1, 2 and 3 in a
  session; the handler of 3 receives a message and sends it to 1, that send raises, and
  the message is never sent to 2. In the second run the handler of 1 ends while the
  handler of 3 is suspended in the send to 1: the list shrinks under the iterator, every
  send succeeds, and again nothing is sent to 2, which is in the session all the time.
\<close>
theorem relay_misses_peer_counterexample:
  "peers (heap (after [Connect 1 ''/v1/ooo/abc'', Connect 2 ''/v1/ooo/abc'', Send_ok 2,
       Connect 3 ''/v1/ooo/abc'', Recv_msg 3 ''offer'']) 0) = [1, 2, 3] \<and>
   trace (after [Connect 1 ''/v1/ooo/abc'', Connect 2 ''/v1/ooo/abc'', Send_ok 2,
       Connect 3 ''/v1/ooo/abc'', Recv_msg 3 ''offer'', Send_raise 3 Exception_other])
     = [Join 1 ''abc'' 0, Join 2 ''abc'' 0,
        Start_send 2 1 (json_dumps [(''type'', ''start_session'')]),
        Join 3 ''abc'' 0, Relay_send 3 1 ''offer''] \<and>
   peers (heap (after [Connect 1 ''/v1/ooo/abc'', Connect 2 ''/v1/ooo/abc'', Send_ok 2,
       Connect 3 ''/v1/ooo/abc'', Recv_msg 3 ''offer'', Send_raise 3 Exception_other]) 0) = [1, 2] \<and>
   trace (after [Connect 1 ''/v1/ooo/abc'', Connect 2 ''/v1/ooo/abc'', Send_ok 2,
       Connect 3 ''/v1/ooo/abc'', Recv_msg 3 ''offer'', Recv_raise 1 ConnectionClosedError, Send_ok 3])
     = [Join 1 ''abc'' 0, Join 2 ''abc'' 0,
        Start_send 2 1 (json_dumps [(''type'', ''start_session'')]),
        Join 3 ''abc'' 0, Relay_send 3 1 ''offer''] \<and>
   peers (heap (after [Connect 1 ''/v1/ooo/abc'', Connect 2 ''/v1/ooo/abc'', Send_ok 2,
       Connect 3 ''/v1/ooo/abc'', Recv_msg 3 ''offer'', Recv_raise 1 ConnectionClosedError, Send_ok 3]) 0) = [2, 3] \<and>
   tasks (after [Connect 1 ''/v1/ooo/abc'', Connect 2 ''/v1/ooo/abc'', Send_ok 2,
       Connect 3 ''/v1/ooo/abc'', Recv_msg 3 ''offer'', Recv_raise 1 ConnectionClosedError, Send_ok 3]) 3
     = Some (Await_recv ''abc'' 0)"
  by (simp add: eval_defs)

text \<open>
  Claim C3 as amended. In every step, a message is relayed by the handler of \<open>c\<close> only
  to a websocket that is in the peer list of the session of \<open>c\<close> at that moment and is
  not \<open>c\<close> itself, and the text is the message that the handler received. If every send
  succeeds and no other handler runs in between, the message is sent exactly once to
  every peer of the list other than \<open>c\<close>, in the order of the list, nothing else
  changes, and the handler waits for its next message.
\<close>
theorem relay_to_other_peers:
  assumes "reachable s"
  shows "(step inp s = Some s' \<longrightarrow> Relay_send c p d \<in> set (new_events s s') \<longrightarrow>
            p \<noteq> c \<and>
            (\<exists>t sid a. tasks s c = Some t \<and> in_session t = Some (sid, a) \<and>
               p \<in> set (peers (heap s a)) \<and>
               (inp = Recv_msg c d \<or> (\<exists>k. inp = Send_ok c \<and> t = Await_relay_send sid a d k)))) \<and>
         (tasks s c = Some (Await_recv sid a) \<longrightarrow>
            run (Recv_msg c d #
                 replicate (length (filter (\<lambda>p. p \<noteq> c) (peers (heap s a)))) (Send_ok c)) s
              = Some (s\<lparr>trace := trace s @
                         map (\<lambda>p. Relay_send c p d) (filter (\<lambda>p. p \<noteq> c) (peers (heap s a)))\<rparr>))"
proof -
  note i = reachable_inv[OF assms]
  have safe: "p \<noteq> c \<and>
            (\<exists>t sid a. tasks s c = Some t \<and> in_session t = Some (sid, a) \<and>
               p \<in> set (peers (heap s a)) \<and>
               (inp = Recv_msg c d \<or> (\<exists>k. inp = Send_ok c \<and> t = Await_relay_send sid a d k)))"
    if st: "step inp s = Some s'" and ev: "Relay_send c p d \<in> set (new_events s s')"
    using i st
  proof (cases rule: step_cases)
    case (reject c' path)
    have "new_events s s' = []" by (simp add: reject(4))
    with ev show ?thesis by simp
  next
    case (new c' path)
    have "new_events s s' = [Join c' (session_id_of path) (next_addr s)]" by (simp add: new(5))
    with ev show ?thesis by simp
  next
    case (second c' path b q)
    have "new_events s s' = [Join c' (session_id_of path) b,
        Start_send c' q (json_dumps [(''type'', ''start_session'')])]" by (simp add: second(8))
    with ev show ?thesis by simp
  next
    case (later c' path b)
    have "new_events s s' = [Join c' (session_id_of path) b]" by (simp add: later(6))
    with ev show ?thesis by simp
  next
    case (idle c' t sid' b)
    have "new_events s s' = []" by (simp add: idle(4))
    with ev show ?thesis by simp
  next
    case (raise c' t sid' b e)
    have "new_events s s' = []" by (simp add: raise(4) trace_finish)
    with ev show ?thesis by simp
  next
    case (relay c' t sid' b d' j)
    have "new_events s s' = [Relay_send c' (peers (heap s b) ! j) d']" by (simp add: relay(6))
    with ev have e: "c = c'" "p = peers (heap s b) ! j" "d = d'" by auto
    from relay(4) e have "p \<in> set (peers (heap s b))" by simp
    with relay(1,2,3,5) e show ?thesis by auto
  qed
  have all: "run (Recv_msg c d #
                 replicate (length (filter (\<lambda>p. p \<noteq> c) (peers (heap s a)))) (Send_ok c)) s
              = Some (s\<lparr>trace := trace s @
                         map (\<lambda>p. Relay_send c p d) (filter (\<lambda>p. p \<noteq> c) (peers (heap s a)))\<rparr>)"
    if tk: "tasks s c = Some (Await_recv sid a)"
  proof -
    have ins: "in_session (Await_recv sid a) = Some (sid, a)" by simp
    have same: "(tasks s)(c \<mapsto> Await_recv sid a) = tasks s" using tk by (rule map_upd_triv)
    have triv: "s\<lparr>trace := tr, tasks := tasks s\<rparr> = s\<lparr>trace := tr\<rparr>" for tr by (cases s) simp
    from relay_run[OF i tk ins, of 0 d] show ?thesis
      by (simp add: tk same triv)
  qed
  from safe all show ?thesis by blast
qed

theorem relay_to_other_peers_witness:
  "reachable (after [Connect 1 ''/v1/ooo/abc'', Connect 2 ''/v1/ooo/abc'', Send_ok 2, Connect 3 ''/v1/ooo/abc'']) \<and>
   tasks (after [Connect 1 ''/v1/ooo/abc'', Connect 2 ''/v1/ooo/abc'', Send_ok 2, Connect 3 ''/v1/ooo/abc'']) 3
     = Some (Await_recv ''abc'' 0) \<and>
   peers (heap (after [Connect 1 ''/v1/ooo/abc'', Connect 2 ''/v1/ooo/abc'', Send_ok 2, Connect 3 ''/v1/ooo/abc'']) 0)
     = [1, 2, 3] \<and>
   step (Recv_msg 3 ''offer'')
        (after [Connect 1 ''/v1/ooo/abc'', Connect 2 ''/v1/ooo/abc'', Send_ok 2, Connect 3 ''/v1/ooo/abc''])
     = Some (after [Connect 1 ''/v1/ooo/abc'', Connect 2 ''/v1/ooo/abc'', Send_ok 2, Connect 3 ''/v1/ooo/abc'',
                    Recv_msg 3 ''offer'']) \<and>
   Relay_send 3 1 ''offer'' \<in> set (new_events
        (after [Connect 1 ''/v1/ooo/abc'', Connect 2 ''/v1/ooo/abc'', Send_ok 2, Connect 3 ''/v1/ooo/abc''])
        (after [Connect 1 ''/v1/ooo/abc'', Connect 2 ''/v1/ooo/abc'', Send_ok 2, Connect 3 ''/v1/ooo/abc'',
                Recv_msg 3 ''offer''])) \<and>
   (1::nat) \<noteq> 3 \<and>
   run [Recv_msg 3 ''offer'', Send_ok 3, Send_ok 3]
       (after [Connect 1 ''/v1/ooo/abc'', Connect 2 ''/v1/ooo/abc'', Send_ok 2, Connect 3 ''/v1/ooo/abc''])
     = Some ((after [Connect 1 ''/v1/ooo/abc'', Connect 2 ''/v1/ooo/abc'', Send_ok 2, Connect 3 ''/v1/ooo/abc''])
              \<lparr>trace := trace (after [Connect 1 ''/v1/ooo/abc'', Connect 2 ''/v1/ooo/abc'', Send_ok 2,
                                       Connect 3 ''/v1/ooo/abc''])
                         @ [Relay_send 3 1 ''offer'', Relay_send 3 2 ''offer'']\<rparr>)"
proof -
  let ?s = "after [Connect 1 ''/v1/ooo/abc'', Connect 2 ''/v1/ooo/abc'', Send_ok 2, Connect 3 ''/v1/ooo/abc'']"
  let ?s' = "after [Connect 1 ''/v1/ooo/abc'', Connect 2 ''/v1/ooo/abc'', Send_ok 2, Connect 3 ''/v1/ooo/abc'',
                    Recv_msg 3 ''offer'']"
  have r: "reachable ?s" by (rule reachable_after)
  have t: "tasks ?s 3 = Some (Await_recv ''abc'' 0)" by (simp add: eval_defs)
  have p: "peers (heap ?s 0) = [1, 2, 3]" by (simp add: eval_defs)
  have st: "step (Recv_msg 3 ''offer'') ?s = Some ?s'" by (simp add: eval_defs)
  have ev: "Relay_send 3 1 ''offer'' \<in> set (new_events ?s ?s')"
    by (simp add: eval_defs new_events_def)
  note inst = relay_to_other_peers[OF r, of "Recv_msg 3 ''offer''" ?s' 3 1 "''offer''" "''abc''" 0]
  from inst st ev have a: "(1::nat) \<noteq> 3" by blast
  from inst t have "run (Recv_msg 3 ''offer'' #
                 replicate (length (filter (\<lambda>p. p \<noteq> 3) (peers (heap ?s 0)))) (Send_ok 3)) ?s
              = Some (?s\<lparr>trace := trace ?s @
                         map (\<lambda>p. Relay_send 3 p ''offer'') (filter (\<lambda>p. p \<noteq> 3) (peers (heap ?s 0)))\<rparr>)"
    by blast
  then have b: "run [Recv_msg 3 ''offer'', Send_ok 3, Send_ok 3] ?s
     = Some (?s\<lparr>trace := trace ?s @ [Relay_send 3 1 ''offer'', Relay_send 3 2 ''offer'']\<rparr>)"
    unfolding p by (simp add: numeral_2_eq_2)
  from r t p st ev a b show ?thesis by blast
qed

section \<open>Cleanup when the handler ends\<close>

text \<open>
  Claim C4 says that the cleanup removes the connection from its session however the
  connection ends, also when the session identifier is the empty string. At the path
  \<^verbatim>\<open>/v1/ooo/\<close> the handler joins the session \<^verbatim>\<open>''\<close>, and when its
  \<^verbatim>\<open>recv\<close> raises because the peer closed, the test \<^verbatim>\<open>if session_id:\<close>
  of line 62 is false for the empty string: the websocket stays in the peer list and the
  session stays in the registry. With the identifier \<^verbatim>\<open>abc\<close> the same inputs
  remove the session.
\<close>
theorem empty_session_id_not_cleaned:
  "sessions (after [Connect 1 ''/v1/ooo/'', Recv_raise 1 ConnectionClosedOK]) [] = Some 0 \<and>
   peers (heap (after [Connect 1 ''/v1/ooo/'', Recv_raise 1 ConnectionClosedOK]) 0) = [1] \<and>
   tasks (after [Connect 1 ''/v1/ooo/'', Recv_raise 1 ConnectionClosedOK]) 1
     = Some (Finished (Traceback (Io ConnectionClosedOK))) \<and>
   sessions (after [Connect 1 ''/v1/ooo/abc'', Recv_raise 1 ConnectionClosedOK]) ''abc'' = None"
  by (simp add: eval_defs)

section \<open>A send that fails during the broadcast\<close>

text \<open>
  Claim C5 says that a failing send to one peer neither keeps the message from the
  remaining peers nor ends the handler of the sender. In the run below the peers 1, 2
  and 3 are in a session, the handler of 1 receives a message and sends it to 2, and
  that send raises: the handler of 1 has ended, 1 is out of the session, and nothing was
  sent to 3.
\<close>
theorem send_failure_not_isolated_counterexample:
  "peers (heap (after [Connect 1 ''/v1/ooo/abc'', Connect 2 ''/v1/ooo/abc'', Send_ok 2,
       Connect 3 ''/v1/ooo/abc'', Recv_msg 1 ''m'']) 0) = [1, 2, 3] \<and>
   tasks (after [Connect 1 ''/v1/ooo/abc'', Connect 2 ''/v1/ooo/abc'', Send_ok 2,
       Connect 3 ''/v1/ooo/abc'', Recv_msg 1 ''m'']) 1 = Some (Await_relay_send ''abc'' 0 ''m'' 2) \<and>
   trace (after [Connect 1 ''/v1/ooo/abc'', Connect 2 ''/v1/ooo/abc'', Send_ok 2,
       Connect 3 ''/v1/ooo/abc'', Recv_msg 1 ''m'', Send_raise 1 ConnectionClosedError])
     = [Join 1 ''abc'' 0, Join 2 ''abc'' 0,
        Start_send 2 1 (json_dumps [(''type'', ''start_session'')]),
        Join 3 ''abc'' 0, Relay_send 1 2 ''m''] \<and>
   tasks (after [Connect 1 ''/v1/ooo/abc'', Connect 2 ''/v1/ooo/abc'', Send_ok 2,
       Connect 3 ''/v1/ooo/abc'', Recv_msg 1 ''m'', Send_raise 1 ConnectionClosedError]) 1
     = Some (Finished Peer_closed) \<and>
   peers (heap (after [Connect 1 ''/v1/ooo/abc'', Connect 2 ''/v1/ooo/abc'', Send_ok 2,
       Connect 3 ''/v1/ooo/abc'', Recv_msg 1 ''m'', Send_raise 1 ConnectionClosedError]) 0) = [2, 3]"
  by (simp add: eval_defs)

text \<open>
  Claim C5 as amended. When a send of the broadcast raises, the handler of the sender
  ends: the exception leaves the \<^verbatim>\<open>for\<close> loop and the \<^verbatim>\<open>while\<close> loop,
  so the step sends nothing, the handler is over and cannot continue the broadcast, and
  its cleanup has taken it out of the peer list of its session when the session
  identifier is not empty.
\<close>
theorem send_failure_ends_handler:
  assumes "reachable s" and "tasks s c = Some (Await_relay_send sid a d k)"
  shows "step (Send_raise c e) s = Some (finish c (Some sid) (ending_of (Io e)) s) \<and>
         new_events s (finish c (Some sid) (ending_of (Io e)) s) = [] \<and>
         tasks (finish c (Some sid) (ending_of (Io e)) s) c = Some (Finished (ending_of (Io e))) \<and>
         step (Send_ok c) (finish c (Some sid) (ending_of (Io e)) s) = None \<and>
         (sid \<noteq> [] \<longrightarrow> c \<notin> set (peers (heap (finish c (Some sid) (ending_of (Io e)) s) a)))"
proof -
  note i = reachable_inv[OF assms(1)]
  have ins: "in_session (Await_relay_send sid a d k) = Some (sid, a)" by simp
  note fe = finish_effect[OF i assms(2) ins, of "ending_of (Io e)"]
  from i assms(2) ins have reg: "sessions s sid = Some a"
    unfolding inv_def tasks_ok_def by blast
  with i have "distinct (peers (heap s a))" unfolding inv_def peers_ok_def by blast
  then have gone: "c \<notin> set (remove1 c (peers (heap s a)))" by simp
  have 1: "step (Send_raise c e) s = Some (finish c (Some sid) (ending_of (Io e)) s)"
    using assms(2) by simp
  have 2: "new_events s (finish c (Some sid) (ending_of (Io e)) s) = []"
    by (simp add: trace_finish)
  have 3: "tasks (finish c (Some sid) (ending_of (Io e)) s) c = Some (Finished (ending_of (Io e)))"
    by (simp add: tasks_finish)
  have 4: "step (Send_ok c) (finish c (Some sid) (ending_of (Io e)) s) = None"
    by (simp add: tasks_finish)
  have 5: "c \<notin> set (peers (heap (finish c (Some sid) (ending_of (Io e)) s) a))" if "sid \<noteq> []"
    unfolding fe using that gone by simp
  from 1 2 3 4 5 show ?thesis by blast
qed

theorem send_failure_ends_handler_witness:
  "reachable (after [Connect 1 ''/v1/ooo/abc'', Connect 2 ''/v1/ooo/abc'', Send_ok 2,
       Connect 3 ''/v1/ooo/abc'', Recv_msg 1 ''m'']) \<and>
   tasks (after [Connect 1 ''/v1/ooo/abc'', Connect 2 ''/v1/ooo/abc'', Send_ok 2,
       Connect 3 ''/v1/ooo/abc'', Recv_msg 1 ''m'']) 1 = Some (Await_relay_send ''abc'' 0 ''m'' 2) \<and>
   ''abc'' \<noteq> [] \<and>
   step (Send_raise 1 ConnectionClosedError)
        (after [Connect 1 ''/v1/ooo/abc'', Connect 2 ''/v1/ooo/abc'', Send_ok 2,
                Connect 3 ''/v1/ooo/abc'', Recv_msg 1 ''m''])
     = Some (finish 1 (Some ''abc'') Peer_closed
              (after [Connect 1 ''/v1/ooo/abc'', Connect 2 ''/v1/ooo/abc'', Send_ok 2,
                      Connect 3 ''/v1/ooo/abc'', Recv_msg 1 ''m''])) \<and>
   tasks (finish 1 (Some ''abc'') Peer_closed
              (after [Connect 1 ''/v1/ooo/abc'', Connect 2 ''/v1/ooo/abc'', Send_ok 2,
                      Connect 3 ''/v1/ooo/abc'', Recv_msg 1 ''m''])) 1 = Some (Finished Peer_closed) \<and>
   1 \<notin> set (peers (heap (finish 1 (Some ''abc'') Peer_closed
              (after [Connect 1 ''/v1/ooo/abc'', Connect 2 ''/v1/ooo/abc'', Send_ok 2,
                      Connect 3 ''/v1/ooo/abc'', Recv_msg 1 ''m''])) 0))"
proof -
  let ?s = "after [Connect 1 ''/v1/ooo/abc'', Connect 2 ''/v1/ooo/abc'', Send_ok 2,
                   Connect 3 ''/v1/ooo/abc'', Recv_msg 1 ''m'']"
  have r: "reachable ?s" by (rule reachable_after)
  have t: "tasks ?s 1 = Some (Await_relay_send ''abc'' 0 ''m'' 2)" by (simp add: eval_defs)
  have n: "''abc'' \<noteq> []" by simp
  have e: "ending_of (Io ConnectionClosedError) = Peer_closed" by simp
  from send_failure_ends_handler[OF r t, of ConnectionClosedError] r t n
  show ?thesis unfolding e by blast
qed

section \<open>No empty session\<close>

text \<open>
  Claim C6. In every state the server can reach, that is after every join and every
  cleanup of a handler, each session in the registry has a peer list that is not empty;
  the size of a peer list is a natural number, at least one for a registered session.
\<close>
theorem no_empty_session:
  assumes "reachable s" and "sessions s sid = Some a"
  shows "peers (heap s a) \<noteq> [] \<and> 1 \<le> length (peers (heap s a))"
proof -
  from reachable_inv[OF assms(1)] assms(2) have "peers (heap s a) \<noteq> []"
    unfolding inv_def peers_ok_def by blast
  then show ?thesis by (cases "peers (heap s a)") auto
qed

theorem no_empty_session_witness:
  "reachable (after [Connect 1 ''/v1/ooo/abc'', Connect 2 ''/v1/ooo/abc'', Send_raise 2 ConnectionClosedError])
   \<and> sessions (after [Connect 1 ''/v1/ooo/abc'', Connect 2 ''/v1/ooo/abc'', Send_raise 2 ConnectionClosedError]) ''abc'' = Some 0
   \<and> peers (heap (after [Connect 1 ''/v1/ooo/abc'', Connect 2 ''/v1/ooo/abc'', Send_raise 2 ConnectionClosedError]) 0) = [1]
   \<and> peers (heap (after [Connect 1 ''/v1/ooo/abc'', Connect 2 ''/v1/ooo/abc'', Send_raise 2 ConnectionClosedError]) 0) \<noteq> []"
proof -
  let ?s = "after [Connect 1 ''/v1/ooo/abc'', Connect 2 ''/v1/ooo/abc'', Send_raise 2 ConnectionClosedError]"
  have r: "reachable ?s" by (rule reachable_after)
  have g: "sessions ?s ''abc'' = Some 0" by (simp add: eval_defs)
  have p: "peers (heap ?s 0) = [1]" by (simp add: eval_defs)
  from no_empty_session[OF r g] r g p show ?thesis by simp
qed

section \<open>Leaving twice\<close>

text \<open>
  Claim C7. In every reachable state, running the cleanup of lines 62 to 69 a second time
  for the same websocket and session identifier gives the state that running it once
  gives, and for an identifier that is not in the registry the cleanup changes nothing.
  The cleanup is a total function of the state: it has no raising branch.
\<close>
theorem leave_idempotent:
  assumes "reachable s"
  shows "leave c sid (leave c sid s) = leave c sid s \<and>
         (\<forall>k. sessions s k = None \<longrightarrow> leave c (Some k) s = s)"
proof -
  have noop: "leave c (Some k) s = s" if "sessions s k = None" for k
    using that by (simp add: leave_def)
  have idem: "leave c sid (leave c sid s) = leave c sid s"
  proof (cases "truthy sid")
    case False
    then show ?thesis by (simp add: leave_def)
  next
    case True
    then obtain k where sid: "sid = Some k" and k: "k \<noteq> []"
      by (auto simp: truthy_def split: option.splits)
    show ?thesis
    proof (cases "sessions s k")
      case None
      then show ?thesis by (simp add: leave_def sid)
    next
      case (Some a)
      from reachable_inv[OF assms] Some have d: "distinct (peers (heap s a))"
        unfolding inv_def peers_ok_def by blast
      show ?thesis
      proof (cases "c \<in> set (peers (heap s a))")
        case False
        then show ?thesis
          by (simp add: leave_def sid truthy_def k Some Let_def)
      next
        case True
        with d have "c \<notin> set (remove1 c (peers (heap s a)))" by simp
        with True show ?thesis
          by (simp add: leave_def sid truthy_def k Some Let_def)
      qed
    qed
  qed
  from noop idem show ?thesis by blast
qed

theorem leave_idempotent_witness:
  "reachable (after [Connect 1 ''/v1/ooo/abc'', Connect 2 ''/v1/ooo/abc'']) \<and>
   leave 2 (Some ''abc'') (leave 2 (Some ''abc'') (after [Connect 1 ''/v1/ooo/abc'', Connect 2 ''/v1/ooo/abc'']))
     = leave 2 (Some ''abc'') (after [Connect 1 ''/v1/ooo/abc'', Connect 2 ''/v1/ooo/abc'']) \<and>
   peers (heap (after [Connect 1 ''/v1/ooo/abc'', Connect 2 ''/v1/ooo/abc'']) 0) = [1, 2] \<and>
   peers (heap (leave 2 (Some ''abc'') (after [Connect 1 ''/v1/ooo/abc'', Connect 2 ''/v1/ooo/abc''])) 0) = [1] \<and>
   sessions (after [Connect 1 ''/v1/ooo/abc'', Connect 2 ''/v1/ooo/abc'']) ''xyz'' = None \<and>
   leave 2 (Some ''xyz'') (after [Connect 1 ''/v1/ooo/abc'', Connect 2 ''/v1/ooo/abc''])
     = after [Connect 1 ''/v1/ooo/abc'', Connect 2 ''/v1/ooo/abc'']"
proof -
  let ?s = "after [Connect 1 ''/v1/ooo/abc'', Connect 2 ''/v1/ooo/abc'']"
  have r: "reachable ?s" by (rule reachable_after)
  have p: "peers (heap ?s 0) = [1, 2]" by (simp add: eval_defs)
  have q: "peers (heap (leave 2 (Some ''abc'') ?s) 0) = [1]" by (simp add: eval_defs)
  have n: "sessions ?s ''xyz'' = None" by (simp add: eval_defs)
  from leave_idempotent[OF r, of 2 "Some ''abc''"] r p q n show ?thesis by blast
qed

section \<open>Rejected paths\<close>

text \<open>
  Claim C8. For every request path that does not start with \<^verbatim>\<open>/v1/ooo/\<close> the
  handler of a new connection ends at once, by the \<^verbatim>\<open>return\<close> of line 30:
  the state after the step is the state before it except that the handler is over. The
  registry, the session objects and the log of sends are the same, so no session is
  created, no peer list is changed and nothing is sent.
\<close>
theorem rejected_path_no_effect:
  assumes "\<not> prefix path_prefix path" and "tasks s c = None"
  shows "step (Connect c path) s = Some (s\<lparr>tasks := (tasks s)(c \<mapsto> Finished Returned)\<rparr>)"
  using assms by (simp add: handle_websocket_def finish_def leave_def truthy_def)

theorem rejected_path_no_effect_witness:
  "\<not> prefix path_prefix ''/other/path'' \<and> tasks init_state 1 = None \<and>
   step (Connect 1 ''/other/path'') init_state =
     Some (init_state\<lparr>tasks := (tasks init_state)(1 \<mapsto> Finished Returned)\<rparr>)"
proof -
  have a: "\<not> prefix path_prefix ''/other/path''" by (simp add: path_prefix_def)
  have b: "tasks init_state 1 = None" by (simp add: init_state_def)
  show ?thesis using a b rejected_path_no_effect [OF a b] by simp
qed

section \<open>Session identifiers\<close>

text \<open>
  Claim C9. A connection whose path starts with \<^verbatim>\<open>/v1/ooo/\<close> joins the session
  whose identifier is exactly the rest of the path after that prefix: its handler is
  suspended with that identifier, and its websocket is in the peer list of the object
  registered under it. An entry of the registry denotes that same session object if and
  only if its identifier is the same string, so identifiers that differ in case or in
  trailing characters denote distinct sessions.
\<close>
theorem session_id_exact:
  assumes "reachable s" and "prefix path_prefix path" and "step (Connect c path) s = Some s'"
  shows "\<exists>a t. tasks s' c = Some t \<and>
           in_session t = Some (drop (length path_prefix) path, a) \<and>
           sessions s' (drop (length path_prefix) path) = Some a \<and>
           c \<in> set (peers (heap s' a)) \<and>
           (\<forall>sid' a'. sessions s' sid' = Some a' \<longrightarrow>
               (a' = a \<longleftrightarrow> sid' = drop (length path_prefix) path))"
proof -
  from assms(3) have s': "s' = handle_websocket c path s" by (auto split: if_splits)
  have i': "inv s'" by (rule reachable_inv[OF reachable_step[OF assms(1,3)]])
  from accept_task[OF reachable_inv[OF assms(1)] assms(2), of c] s'
  obtain a t where t: "tasks s' c = Some t" and ins: "in_session t = Some (session_id_of path, a)"
    by blast
  from i' t ins have reg: "sessions s' (session_id_of path) = Some a"
    and mem: "c \<in> set (peers (heap s' a))"
    unfolding inv_def tasks_ok_def by blast+
  from i' have inj: "\<And>x y b. sessions s' x = Some b \<Longrightarrow> sessions s' y = Some b \<Longrightarrow> x = y"
    unfolding inv_def reg_ok_def by blast
  have "\<forall>sid' a'. sessions s' sid' = Some a' \<longrightarrow> (a' = a \<longleftrightarrow> sid' = session_id_of path)"
    using reg inj by auto
  with t ins reg mem show ?thesis
    unfolding session_id_of_prefix[OF assms(2)] by blast
qed

theorem session_id_exact_witness:
  "reachable (after [Connect 1 ''/v1/ooo/abc'']) \<and> prefix path_prefix ''/v1/ooo/ABC'' \<and>
   step (Connect 2 ''/v1/ooo/ABC'') (after [Connect 1 ''/v1/ooo/abc''])
     = Some (handle_websocket 2 ''/v1/ooo/ABC'' (after [Connect 1 ''/v1/ooo/abc''])) \<and>
   drop (length path_prefix) ''/v1/ooo/ABC'' = ''ABC'' \<and>
   (\<exists>a t. tasks (handle_websocket 2 ''/v1/ooo/ABC'' (after [Connect 1 ''/v1/ooo/abc''])) 2 = Some t \<and>
      in_session t = Some (''ABC'', a) \<and>
      sessions (handle_websocket 2 ''/v1/ooo/ABC'' (after [Connect 1 ''/v1/ooo/abc''])) ''ABC'' = Some a \<and>
      2 \<in> set (peers (heap (handle_websocket 2 ''/v1/ooo/ABC'' (after [Connect 1 ''/v1/ooo/abc''])) a)) \<and>
      (\<forall>sid' a'. sessions (handle_websocket 2 ''/v1/ooo/ABC'' (after [Connect 1 ''/v1/ooo/abc''])) sid' = Some a' \<longrightarrow>
          (a' = a \<longleftrightarrow> sid' = ''ABC'')))"
proof -
  let ?s = "after [Connect 1 ''/v1/ooo/abc'']"
  have r: "reachable ?s" by (rule reachable_after)
  have p: "prefix path_prefix ''/v1/ooo/ABC''" by (simp add: path_prefix_def)
  have f: "tasks ?s 2 = None" by (simp add: eval_defs)
  have st: "step (Connect 2 ''/v1/ooo/ABC'') ?s = Some (handle_websocket 2 ''/v1/ooo/ABC'' ?s)"
    using f by simp
  have d: "drop (length path_prefix) ''/v1/ooo/ABC'' = ''ABC''" by (simp add: path_prefix_def)
  from session_id_exact[OF r p st] show ?thesis unfolding d using r p st by blast
qed

section \<open>The lookup at the top of the loop\<close>

text \<open>
  Claim C10. While a handler is suspended inside its loop, its session identifier is in
  the registry, registered to the very object the handler refers to, and the handler's
  websocket is in the peer list of that object. Hence the lookup of line 41 finds the
  session, and no handler ever ended with the \<^verbatim>\<open>TypeError\<close> that the
  subscripts of line 42 raise on \<^verbatim>\<open>None\<close>.
\<close>
theorem session_lookup_never_fails:
  assumes "reachable s"
  shows "(\<forall>c t sid a. tasks s c = Some t \<longrightarrow> in_session t = Some (sid, a) \<longrightarrow>
            sessions s sid = Some a \<and> c \<in> set (peers (heap s a))) \<and>
         (\<forall>c. tasks s c \<noteq> Some (Finished (Traceback Session_is_None)))"
  using reachable_inv[OF assms] reachable_no_fault[OF assms]
  unfolding inv_def tasks_ok_def no_fault_def by blast

theorem session_lookup_never_fails_witness:
  "reachable (after [Connect 1 ''/v1/ooo/abc'']) \<and>
   tasks (after [Connect 1 ''/v1/ooo/abc'']) 1 = Some (Await_recv ''abc'' 0) \<and>
   in_session (Await_recv ''abc'' 0) = Some (''abc'', 0) \<and>
   sessions (after [Connect 1 ''/v1/ooo/abc'']) ''abc'' = Some 0 \<and>
   1 \<in> set (peers (heap (after [Connect 1 ''/v1/ooo/abc'']) 0)) \<and>
   tasks (after [Connect 1 ''/v1/ooo/abc'']) 1 \<noteq> Some (Finished (Traceback Session_is_None))"
proof -
  let ?s = "after [Connect 1 ''/v1/ooo/abc'']"
  have r: "reachable ?s" by (rule reachable_after)
  have t: "tasks ?s 1 = Some (Await_recv ''abc'' 0)" by (simp add: eval_defs)
  have i: "in_session (Await_recv ''abc'' 0) = Some (''abc'', 0)" by simp
  from session_lookup_never_fails[OF r] t i r show ?thesis by blast
qed

end
